theory Spec2Isabelle
  imports Complex_Main "HOL-Library.Sublist"
begin

section \<open>Network throughput sampling of system-widgets.ts\<close>

text \<open>
  The development embeds \<^verbatim>\<open>isAllowedInterface\<close>, \<^verbatim>\<open>parseProcNetDev\<close> and
  \<^verbatim>\<open>getNetworkRates\<close> of
  \<^verbatim>\<open>packages/umbreld/source/modules/system/system-widgets.ts\<close>.

  Conventions of the embedding:
  \<^item> a JavaScript string is the list of its UTF-16 code units, each a natural number;
  \<^item> a JavaScript number is a rational (the value of a finite double), \<open>+Infinity\<close>,
    \<open>-Infinity\<close> or \<open>NaN\<close>. Addition, subtraction, division and \<^verbatim>\<open>Number(string)\<close>
    round their exact result to the nearest double, ties to the even mantissa, and overflow
    to an infinity, as IEEE 754 binary64 does. The sign of zero is not modelled;
  \<^item> the module variable \<^verbatim>\<open>lastNetworkSample\<close> is passed in and returned;
  \<^item> the result of \<^verbatim>\<open>fs.readFile\<close> and the value of \<^verbatim>\<open>Date.now()\<close>, an integer
    number of milliseconds, are inputs.
\<close>

subsection \<open>Numbers\<close>

datatype jsnum = Fin rat | PInf | NInf | NaN

fun js_neg :: "jsnum \<Rightarrow> jsnum" where
  "js_neg (Fin a) = Fin (- a)"
| "js_neg PInf = NInf"
| "js_neg NInf = PInf"
| "js_neg NaN = NaN"

text \<open>
  Rounding to a double. A finite double is \<open>m * 2 ^ e / 2 ^ 1074\<close> for a mantissa
  \<open>m < 2 ^ 53\<close> and an exponent \<open>e \<ge> 0\<close>, and is below \<open>2 ^ 1024\<close>. For \<open>x \<ge> 0\<close>
  the exponent of the last place is the position of the leading bit of \<open>x * 2 ^ 1074\<close>
  minus 52, or 0 for a subnormal \<open>x\<close>; the mantissa is rounded to the nearest integer, a
  tie to the even one; a result of \<open>2 ^ 1024\<close> or more is \<open>+Infinity\<close>.
\<close>

fun nat_log2 :: "nat \<Rightarrow> nat" where
  "nat_log2 n = (if n < 2 then 0 else Suc (nat_log2 (n div 2)))"

definition round_even :: "rat \<Rightarrow> int" where
  "round_even q =
     (let f = \<lfloor>q\<rfloor> in
      if q - of_int f < 1 / 2 then f
      else if 1 / 2 < q - of_int f then f + 1
      else if even f then f else f + 1)"

definition min_exp :: nat where
  "min_exp = 1074"

definition max_exp :: nat where
  "max_exp = 1024"

definition ulp_exp :: "rat \<Rightarrow> nat" where
  "ulp_exp x = nat_log2 (nat \<lfloor>x * 2 ^ min_exp\<rfloor>) - 52"

definition nearest :: "rat \<Rightarrow> rat" where
  "nearest x =
     of_int (round_even (x * 2 ^ min_exp / 2 ^ ulp_exp x)) * 2 ^ ulp_exp x / 2 ^ min_exp"

definition round_pos :: "rat \<Rightarrow> jsnum" where
  "round_pos x = (if 2 ^ max_exp \<le> nearest x then PInf else Fin (nearest x))"

definition to_double :: "rat \<Rightarrow> jsnum" where
  "to_double x = (if x < 0 then js_neg (round_pos (- x)) else round_pos x)"

fun js_add :: "jsnum \<Rightarrow> jsnum \<Rightarrow> jsnum" where
  "js_add NaN y = NaN"
| "js_add x NaN = NaN"
| "js_add (Fin a) (Fin b) = to_double (a + b)"
| "js_add PInf NInf = NaN"
| "js_add NInf PInf = NaN"
| "js_add PInf y = PInf"
| "js_add NInf y = NInf"
| "js_add (Fin a) y = y"

definition js_sub :: "jsnum \<Rightarrow> jsnum \<Rightarrow> jsnum" where
  "js_sub x y = js_add x (js_neg y)"

text \<open>Division; a zero divisor is taken as \<open>+0\<close>.\<close>

fun js_div :: "jsnum \<Rightarrow> jsnum \<Rightarrow> jsnum" where
  "js_div NaN y = NaN"
| "js_div x NaN = NaN"
| "js_div (Fin a) (Fin b) =
     (if b \<noteq> 0 then to_double (a / b)
      else if a = 0 then NaN else if 0 < a then PInf else NInf)"
| "js_div (Fin a) y = Fin 0"
| "js_div PInf (Fin b) = (if 0 \<le> b then PInf else NInf)"
| "js_div NInf (Fin b) = (if 0 \<le> b then NInf else PInf)"
| "js_div x y = NaN"

text \<open>The comparison \<^verbatim>\<open>x < y\<close>: false whenever an operand is \<open>NaN\<close>.\<close>

fun js_lt :: "jsnum \<Rightarrow> jsnum \<Rightarrow> bool" where
  "js_lt NaN y = False"
| "js_lt x NaN = False"
| "js_lt (Fin a) (Fin b) = (a < b)"
| "js_lt x PInf = (x \<noteq> PInf)"
| "js_lt NInf y = (y \<noteq> NInf)"
| "js_lt x y = False"

definition js_gt :: "jsnum \<Rightarrow> jsnum \<Rightarrow> bool" where
  "js_gt x y = js_lt y x"

text \<open>\<^verbatim>\<open>Number.isFinite\<close>.\<close>

fun isFinite :: "jsnum \<Rightarrow> bool" where
  "isFinite (Fin a) = True"
| "isFinite x = False"

text \<open>Truthiness of a number: \<open>0\<close> and \<open>NaN\<close> are falsy.\<close>

fun truthy :: "jsnum \<Rightarrow> bool" where
  "truthy (Fin a) = (a \<noteq> 0)"
| "truthy NaN = False"
| "truthy x = True"

subsection \<open>Strings\<close>

type_synonym code_unit = nat
type_synonym jsstring = "code_unit list"

abbreviation ch :: "char \<Rightarrow> code_unit" where
  "ch c \<equiv> of_char c"

definition str :: "string \<Rightarrow> jsstring" where
  "str s = map of_char s"

text \<open>
  White space and line terminators of ECMAScript: what \<^verbatim>\<open>String.prototype.trim\<close> strips
  and what \<^verbatim>\<open>\s\<close> matches.
\<close>

definition is_ws :: "code_unit \<Rightarrow> bool" where
  "is_ws c = (c = 9 \<or> c = 10 \<or> c = 11 \<or> c = 12 \<or> c = 13 \<or> c = 32 \<or> c = 160
      \<or> c = 5760 \<or> (8192 \<le> c \<and> c \<le> 8202) \<or> c = 8232 \<or> c = 8233 \<or> c = 8239
      \<or> c = 8287 \<or> c = 12288 \<or> c = 65279)"

definition trim :: "jsstring \<Rightarrow> jsstring" where
  "trim s = rev (dropWhile is_ws (rev (dropWhile is_ws s)))"

text \<open>\<^verbatim>\<open>s.split(sep)\<close> for a separator of one code unit.\<close>

fun split_on :: "code_unit \<Rightarrow> jsstring \<Rightarrow> jsstring list" where
  "split_on sep [] = [[]]"
| "split_on sep (c # cs) =
     (if c = sep then [] # split_on sep cs
      else case split_on sep cs of
             [] \<Rightarrow> [[c]]
           | piece # pieces \<Rightarrow> (c # piece) # pieces)"

text \<open>\<^verbatim>\<open>s.split(/\s+/)\<close>: the pieces between maximal runs of white space.\<close>

function split_ws :: "jsstring \<Rightarrow> jsstring list" where
  "split_ws [] = [[]]"
| "split_ws (c # cs) =
     (if is_ws c then [] # split_ws (dropWhile is_ws cs)
      else case split_ws cs of
             [] \<Rightarrow> [[c]]
           | piece # pieces \<Rightarrow> (c # piece) # pieces)"
  by pat_completeness auto
termination
  by (relation "measure length") (auto simp: length_dropWhile_le less_Suc_eq_le)

subsection \<open>\<^verbatim>\<open>Number(string)\<close>\<close>

text \<open>
  The grammar \<open>StringNumericLiteral\<close> of ECMAScript: optional white space around nothing
  (the value 0), a binary, octal or hexadecimal integer, or an optionally signed
  \<open>Infinity\<close> or decimal literal with optional fraction and exponent. Anything else is
  \<open>NaN\<close>. The value of a literal is its exact value rounded to a double.
\<close>

definition is_digit :: "code_unit \<Rightarrow> bool" where
  "is_digit c = (48 \<le> c \<and> c \<le> 57)"

definition digits_val :: "jsstring \<Rightarrow> nat" where
  "digits_val ds = foldl (\<lambda>a c. 10 * a + (c - 48)) 0 ds"

definition radix_digit :: "nat \<Rightarrow> code_unit \<Rightarrow> nat option" where
  "radix_digit r c =
     (let v = (if 48 \<le> c \<and> c \<le> 57 then Some (c - 48)
               else if 97 \<le> c \<and> c \<le> 102 then Some (c - 87)
               else if 65 \<le> c \<and> c \<le> 70 then Some (c - 55)
               else None)
      in case v of None \<Rightarrow> None | Some d \<Rightarrow> if d < r then Some d else None)"

definition radix_val :: "nat \<Rightarrow> jsstring \<Rightarrow> nat option" where
  "radix_val r ds =
     (if ds \<noteq> [] \<and> list_all (\<lambda>c. radix_digit r c \<noteq> None) ds
      then Some (foldl (\<lambda>a c. r * a + the (radix_digit r c)) 0 ds)
      else None)"

definition non_decimal :: "jsstring \<Rightarrow> nat option" where
  "non_decimal t =
     (case t of
        z # x # ds \<Rightarrow>
          if z \<noteq> ch CHR ''0'' then None
          else if x = ch CHR ''b'' \<or> x = ch CHR ''B'' then radix_val 2 ds
          else if x = ch CHR ''o'' \<or> x = ch CHR ''O'' then radix_val 8 ds
          else if x = ch CHR ''x'' \<or> x = ch CHR ''X'' then radix_val 16 ds
          else None
      | _ \<Rightarrow> None)"

definition decimal_digits :: "jsstring \<Rightarrow> nat option" where
  "decimal_digits ds = (if ds \<noteq> [] \<and> list_all is_digit ds then Some (digits_val ds) else None)"

definition signed_integer :: "jsstring \<Rightarrow> int option" where
  "signed_integer r =
     (case r of
        [] \<Rightarrow> None
      | c # ds \<Rightarrow>
          if c = ch CHR ''+'' then map_option int (decimal_digits ds)
          else if c = ch CHR ''-'' then map_option (\<lambda>n. - int n) (decimal_digits ds)
          else map_option int (decimal_digits r))"

text \<open>The text after the mantissa: nothing, or an exponent part.\<close>

definition exponent_part :: "jsstring \<Rightarrow> int option" where
  "exponent_part r =
     (case r of
        [] \<Rightarrow> Some 0
      | c # r' \<Rightarrow> if c = ch CHR ''e'' \<or> c = ch CHR ''E'' then signed_integer r' else None)"

definition pow10 :: "int \<Rightarrow> rat" where
  "pow10 e = (if 0 \<le> e then 10 ^ nat e else 1 / 10 ^ nat (- e))"

definition unsigned_decimal :: "jsstring \<Rightarrow> jsnum" where
  "unsigned_decimal t =
     (if t = str ''Infinity'' then PInf
      else
        let ip = takeWhile is_digit t;
            r1 = dropWhile is_digit t;
            dotted = (r1 \<noteq> [] \<and> hd r1 = ch CHR ''.'');
            fp = (if dotted then takeWhile is_digit (tl r1) else []);
            r2 = (if dotted then dropWhile is_digit (tl r1) else r1)
        in if ip = [] \<and> fp = [] then NaN
           else case exponent_part r2 of
                  None \<Rightarrow> NaN
                | Some e \<Rightarrow>
                    to_double ((of_nat (digits_val ip) + of_nat (digits_val fp) / 10 ^ length fp)
                               * pow10 e))"

definition to_number :: "jsstring \<Rightarrow> jsnum" where
  "to_number s =
     (let t = trim s in
      if t = [] then Fin 0
      else case non_decimal t of
             Some n \<Rightarrow> to_double (of_nat n)
           | None \<Rightarrow>
               if hd t = ch CHR ''+'' then unsigned_decimal (tl t)
               else if hd t = ch CHR ''-'' then js_neg (unsigned_decimal (tl t))
               else unsigned_decimal t)"

text \<open>\<^verbatim>\<open>Number(field) || 0\<close>.\<close>

definition num_or_zero :: "jsstring \<Rightarrow> jsnum" where
  "num_or_zero f = (if truthy (to_number f) then to_number f else Fin 0)"

subsection \<open>The parser\<close>

text \<open>
  The patterns of \<^verbatim>\<open>NETWORK_INTERFACE_EXCLUDES\<close> are of two shapes: \<^verbatim>\<open>/^p$/\<close> matches
  the string \<open>p\<close> only, \<^verbatim>\<open>/^p/\<close> every string that starts with \<open>p\<close>.
\<close>

datatype pattern = Whole jsstring | Starts jsstring

fun regex_test :: "pattern \<Rightarrow> jsstring \<Rightarrow> bool" where
  "regex_test (Whole p) s = (s = p)"
| "regex_test (Starts p) s = prefix p s"

definition NETWORK_INTERFACE_EXCLUDES :: "pattern list" where
  "NETWORK_INTERFACE_EXCLUDES =
     [Whole (str ''lo''), Starts (str ''br-''), Starts (str ''docker''),
      Starts (str ''services''), Starts (str ''veth'')]"

definition isAllowedInterface :: "jsstring \<Rightarrow> bool" where
  "isAllowedInterface name = (\<not> list_ex (\<lambda>p. regex_test p name) NETWORK_INTERFACE_EXCLUDES)"

record counters =
  rxBytes :: jsnum
  txBytes :: jsnum

text \<open>
  One iteration of the loop of \<^verbatim>\<open>parseProcNetDev\<close>. The destructuring
  \<^verbatim>\<open>[rawName, rawData] = line.trim().split(':')\<close> takes the first two pieces;
  \<^verbatim>\<open>rawData\<close> is undefined when there is one piece only, and \<^verbatim>\<open>!rawData\<close> holds for
  undefined and for the empty string.
\<close>

definition loop_body :: "jsstring \<Rightarrow> counters \<Rightarrow> counters" where
  "loop_body line acc =
     (if trim line = [] then acc
      else case split_on (ch CHR '':'') (trim line) of
             [] \<Rightarrow> acc
           | [rawName] \<Rightarrow> acc
           | rawName # rawData # _ \<Rightarrow>
               if rawData = [] then acc
               else let iface = trim rawName in
                 if \<not> isAllowedInterface iface then acc
                 else let fields = split_ws (trim rawData) in
                   if length fields < 9 then acc
                   else \<lparr>rxBytes = js_add (rxBytes acc) (num_or_zero (fields ! 0)),
                         txBytes = js_add (txBytes acc) (num_or_zero (fields ! 8))\<rparr>)"

fun parse_loop :: "jsstring list \<Rightarrow> counters \<Rightarrow> counters" where
  "parse_loop [] acc = acc"
| "parse_loop (line # lines) acc = parse_loop lines (loop_body line acc)"

text \<open>\<^verbatim>\<open>content.split('\n')\<close>.\<close>

definition lines_of :: "jsstring \<Rightarrow> jsstring list" where
  "lines_of content = split_on (ch CHR 0x0A) content"

definition parseProcNetDev :: "jsstring \<Rightarrow> counters" where
  "parseProcNetDev content =
     parse_loop (drop 2 (lines_of content)) \<lparr>rxBytes = Fin 0, txBytes = Fin 0\<rparr>"

subsection \<open>The sampler\<close>

record NetworkSample = counters +
  ts :: int

record rates =
  rxPerSec :: jsnum
  txPerSec :: jsnum

datatype io_error = ENOENT | EACCES | EIO | OtherError

text \<open>\<^verbatim>\<open>(now - lastNetworkSample.ts) / 1000\<close>, for the stored timestamp \<open>t\<close>.\<close>

definition deltaSeconds :: "int \<Rightarrow> int \<Rightarrow> jsnum" where
  "deltaSeconds now t = js_div (js_sub (Fin (of_int now)) (Fin (of_int t))) (Fin 1000)"

definition clamp_rate :: "jsnum \<Rightarrow> jsnum" where
  "clamp_rate r = (if \<not> isFinite r \<or> js_lt r (Fin 0) then Fin 0 else r)"

text \<open>
  The body of the \<^verbatim>\<open>try\<close> block: the only statement that can throw is the read, before
  anything is assigned. The result is the returned rates and the new value of
  \<^verbatim>\<open>lastNetworkSample\<close>.
\<close>

definition try_block ::
  "io_error + jsstring \<Rightarrow> int \<Rightarrow> NetworkSample option
     \<Rightarrow> io_error + (rates \<times> NetworkSample option)" where
  "try_block readFile now lastNetworkSample =
     (case readFile of
        Inl e \<Rightarrow> Inl e
      | Inr content \<Rightarrow>
          let parsed = parseProcNetDev content;
              r = (case lastNetworkSample of
                     None \<Rightarrow> \<lparr>rxPerSec = Fin 0, txPerSec = Fin 0\<rparr>
                   | Some prev \<Rightarrow>
                       let delta = deltaSeconds now (ts prev) in
                       if js_gt delta (Fin 0)
                       then \<lparr>rxPerSec = clamp_rate
                                (js_div (js_sub (rxBytes parsed) (rxBytes prev)) delta),
                             txPerSec = clamp_rate
                                (js_div (js_sub (txBytes parsed) (txBytes prev)) delta)\<rparr>
                       else \<lparr>rxPerSec = Fin 0, txPerSec = Fin 0\<rparr>)
          in Inr (r, Some \<lparr>rxBytes = rxBytes parsed, txBytes = txBytes parsed, ts = now\<rparr>))"

definition getNetworkRates ::
  "io_error + jsstring \<Rightarrow> int \<Rightarrow> NetworkSample option \<Rightarrow> rates \<times> NetworkSample option" where
  "getNetworkRates readFile now lastNetworkSample =
     (case try_block readFile now lastNetworkSample of
        Inr result \<Rightarrow> result
      | Inl e \<Rightarrow> (\<lparr>rxPerSec = Fin 0, txPerSec = Fin 0\<rparr>, lastNetworkSample))"

subsection \<open>Runs of the sampler\<close>

text \<open>
  A sequence of invocations, each with the outcome of its read and its clock value; the
  stored sample is threaded through, the returned rates are collected.
\<close>

fun run_sampler ::
  "((io_error + jsstring) \<times> int) list \<Rightarrow> NetworkSample option \<Rightarrow> rates list" where
  "run_sampler [] st = []"
| "run_sampler ((readFile, now) # calls) st =
     fst (getNetworkRates readFile now st)
       # run_sampler calls (snd (getNetworkRates readFile now st))"

text \<open>A rate that is a finite number and at least 0.\<close>

fun nonneg_finite :: "jsnum \<Rightarrow> bool" where
  "nonneg_finite (Fin a) = (0 \<le> a)"
| "nonneg_finite x = False"

subsection \<open>Notions of the specification\<close>

text \<open>
  The exclusion rule in the specification's words: the name \<open>lo\<close>, or a name that starts
  with \<open>br-\<close>, \<open>docker\<close>, \<open>services\<close> or \<open>veth\<close>.
\<close>

definition excluded_name :: "jsstring \<Rightarrow> bool" where
  "excluded_name n =
     (n = str ''lo'' \<or> prefix (str ''br-'') n \<or> prefix (str ''docker'') n
      \<or> prefix (str ''services'') n \<or> prefix (str ''veth'') n)"

text \<open>
  The interface name of a line is the trimmed text before its first colon. Its field list
  is the white-space separated text between the first colon and the second one, or the
  end of the line when there is no second colon.
\<close>

definition iface_name :: "jsstring \<Rightarrow> jsstring" where
  "iface_name line = trim (takeWhile (\<lambda>c. c \<noteq> ch CHR '':'') (trim line))"

definition field_text :: "jsstring \<Rightarrow> jsstring" where
  "field_text line =
     takeWhile (\<lambda>c. c \<noteq> ch CHR '':'')
       (drop 1 (dropWhile (\<lambda>c. c \<noteq> ch CHR '':'') (trim line)))"

definition fields_of :: "jsstring \<Rightarrow> jsstring list" where
  "fields_of line = split_ws (trim (field_text line))"

text \<open>A line is skipped when it has no colon (a blank line has none) or fewer than 9 fields.\<close>

definition skipped_line :: "jsstring \<Rightarrow> bool" where
  "skipped_line line = (ch CHR '':'' \<notin> set (trim line) \<or> length (fields_of line) < 9)"

definition counted_line :: "jsstring \<Rightarrow> bool" where
  "counted_line line = (\<not> skipped_line line \<and> \<not> excluded_name (iface_name line))"

definition counted_lines :: "jsstring \<Rightarrow> jsstring list" where
  "counted_lines content = filter counted_line (drop 2 (lines_of content))"

text \<open>The sum of a list of numbers, added from left to right starting at 0.\<close>

definition js_sum :: "jsnum list \<Rightarrow> jsnum" where
  "js_sum xs = foldl js_add (Fin 0) xs"

text \<open>
  The field list in the wording "split on the first colon": all the text after the first
  colon. The parser in that wording sums the fields 0 and 8 of these lists.
\<close>

definition fields_first_colon :: "jsstring \<Rightarrow> jsstring list" where
  "fields_first_colon line =
     split_ws (trim (drop 1 (dropWhile (\<lambda>c. c \<noteq> ch CHR '':'') (trim line))))"

definition counted_first_colon :: "jsstring \<Rightarrow> bool" where
  "counted_first_colon line =
     (ch CHR '':'' \<in> set (trim line) \<and> 9 \<le> length (fields_first_colon line)
      \<and> \<not> excluded_name (iface_name line))"

definition parse_first_colon :: "jsstring \<Rightarrow> counters" where
  "parse_first_colon content =
     \<lparr>rxBytes = js_sum (map (\<lambda>l. num_or_zero (fields_first_colon l ! 0))
                  (filter counted_first_colon (drop 2 (lines_of content)))),
      txBytes = js_sum (map (\<lambda>l. num_or_zero (fields_first_colon l ! 8))
                  (filter counted_first_colon (drop 2 (lines_of content))))\<rparr>"

text \<open>Lines joined by line feeds, the inverse of \<open>lines_of\<close>.\<close>

fun join_lines :: "jsstring list \<Rightarrow> jsstring" where
  "join_lines [] = []"
| "join_lines [l] = l"
| "join_lines (l # ls) = l @ ch CHR 0x0A # join_lines ls"

text \<open>A rational that is a double: rounding leaves it as it is.\<close>

definition is_double :: "rat \<Rightarrow> bool" where
  "is_double a = (to_double a = Fin a)"

fun double_val :: "jsnum \<Rightarrow> bool" where
  "double_val (Fin a) = is_double a"
| "double_val x = True"

text \<open>A quotient as the sampler returns it when it is not negative: 0 in place of a
  value that is not finite.\<close>

definition finite_or_zero :: "jsnum \<Rightarrow> jsnum" where
  "finite_or_zero q = (if isFinite q then q else Fin 0)"

text \<open>A number that is an integer and at least 0.\<close>

fun nonneg_integer :: "jsnum \<Rightarrow> bool" where
  "nonneg_integer (Fin a) = (0 \<le> a \<and> of_int \<lfloor>a\<rfloor> = a)"
| "nonneg_integer x = False"

text \<open>A number that is \<open>+Infinity\<close> or an integer that is at least 0.\<close>

fun nonneg_integer_or_infinity :: "jsnum \<Rightarrow> bool" where
  "nonneg_integer_or_infinity (Fin a) = (0 \<le> a \<and> of_int \<lfloor>a\<rfloor> = a)"
| "nonneg_integer_or_infinity PInf = True"
| "nonneg_integer_or_infinity x = False"


text \<open>A field made of decimal digits, as the kernel prints a counter.\<close>

definition digit_string :: "jsstring \<Rightarrow> bool" where
  "digit_string f = (f \<noteq> [] \<and> list_all is_digit f)"

text \<open>Lower case of the letters A to Z, for matching that ignores case.\<close>

definition to_lower :: "code_unit \<Rightarrow> code_unit" where
  "to_lower c = (if 65 \<le> c \<and> c \<le> 90 then c + 32 else c)"

definition regex_test_ignore_case :: "pattern \<Rightarrow> jsstring \<Rightarrow> bool" where
  "regex_test_ignore_case p s = regex_test p (map to_lower s)"

subsection \<open>Sample inputs\<close>

text \<open>
  A counter file with a loopback and an ethernet interface, one read before it with
  smaller counters, and one read after it whose receive counter went down.
\<close>

definition sample_text :: jsstring where
  "sample_text = str ''Inter-| Receive\<newline> face |bytes\<newline>    lo: 77 0 0 0 0 0 0 0 77\<newline>  eth0: 3000 9 0 0 0 0 0 0 500\<newline>''"

definition earlier_text :: jsstring where
  "earlier_text = str ''Inter-| Receive\<newline> face |bytes\<newline>  eth0: 1000 9 0 0 0 0 0 0 500\<newline>''"

definition later_text :: jsstring where
  "later_text = str ''Inter-| Receive\<newline> face |bytes\<newline>  eth0: 100 9 0 0 0 0 0 0 900\<newline>''"

text \<open>A data line with a second colon, and one with a negative first field.\<close>

definition two_colon_text :: jsstring where
  "two_colon_text = str ''Inter-| Receive\<newline> face |bytes\<newline>  eth0: 1 2 3 4 5 6 7 8 9:5''"

definition negative_text :: jsstring where
  "negative_text = str ''Inter-| Receive\<newline> face |bytes\<newline>  eth0: -5 0 0 0 0 0 0 0 0''"

text \<open>Interface names that differ from excluded ones in letter case only.\<close>

definition capitals_text :: jsstring where
  "capitals_text = str ''Inter-| Receive\<newline> face |bytes\<newline>    LO: 1 0 0 0 0 0 0 0 2\<newline> Docker0: 10 0 0 0 0 0 0 0 20\<newline> VETH1: 100 0 0 0 0 0 0 0 200''"

text \<open>
  Counters of 0; a receive counter of \<open>2 ^ 1023\<close>, written with its 308 decimal digits;
  and a receive counter of 310 digits, \<open>10 ^ 309\<close>.
\<close>

definition zero_text :: jsstring where
  "zero_text = str ''Inter-| Receive\<newline> face |bytes\<newline>  eth0: 0 0 0 0 0 0 0 0 0\<newline>''"

definition digits_2_1023 :: jsstring where
  "digits_2_1023 = str ''89884656743115795386465259539451236680898848947115328636715040578866337902750481566354238661203768010560056939935696678829394884407208311246423715319737062188883946712432742638151109800623047059726541476042502884419075341171231440736956555270413618581675255342293149119973622969239858152417678164812112068608''"

definition huge_text :: jsstring where
  "huge_text = str ''Inter-| Receive\<newline> face |bytes\<newline>  eth0: '' @ digits_2_1023
     @ str '' 0 0 0 0 0 0 0 0\<newline>''"

definition digits_10_309 :: jsstring where
  "digits_10_309 = str ''1000000000000000000000000000000000000000000000000000000000000000000000000000000000000000000000000000000000000000000000000000000000000000000000000000000000000000000000000000000000000000000000000000000000000000000000000000000000000000000000000000000000000000000000000000000000000000000000000000000000000000000000''"

definition long_field_text :: jsstring where
  "long_field_text = str ''Inter-| Receive\<newline> face |bytes\<newline>  eth0: '' @ digits_10_309
     @ str '' 0 0 0 0 0 0 0 7\<newline>''"

section \<open>Properties\<close>

subsection \<open>The nearest double\<close>

declare nat_log2.simps [simp del]

lemma nat_log2_bounds: "0 < n \<Longrightarrow> 2 ^ nat_log2 n \<le> n \<and> n < 2 ^ Suc (nat_log2 n)"
proof (induction n rule: nat_log2.induct)
  case (1 n)
  show ?case
  proof (cases "n < 2")
    case True
    with 1(2) have "n = 1" by simp
    then show ?thesis by (simp add: nat_log2.simps)
  next
    case False
    then have "0 < n div 2" by simp
    with 1(1) [OF False] have ih: "2 ^ nat_log2 (n div 2) \<le> n div 2"
      "n div 2 < 2 ^ Suc (nat_log2 (n div 2))" by simp_all
    have eq: "nat_log2 n = Suc (nat_log2 (n div 2))"
      using False by (subst nat_log2.simps) simp
    from ih(1) have "2 * 2 ^ nat_log2 (n div 2) \<le> n" by linarith
    moreover from ih(2) have "n < 2 * 2 ^ Suc (nat_log2 (n div 2))" by linarith
    ultimately show ?thesis by (simp add: eq)
  qed
qed

lemma nat_log2_mono: "m \<le> n \<Longrightarrow> nat_log2 m \<le> nat_log2 n"
proof (rule ccontr)
  assume mn: "m \<le> n" and "\<not> nat_log2 m \<le> nat_log2 n"
  then have lt: "Suc (nat_log2 n) \<le> nat_log2 m" by simp
  then have "0 < nat_log2 m" by simp
  then have "0 < m" by (cases "m = 0") (simp_all add: nat_log2.simps)
  with mn have "0 < n" by simp
  from nat_log2_bounds [OF \<open>0 < m\<close>] have "2 ^ nat_log2 m \<le> m" by simp
  moreover from nat_log2_bounds [OF \<open>0 < n\<close>] have "n < 2 ^ Suc (nat_log2 n)" by simp
  moreover from lt have "(2::nat) ^ Suc (nat_log2 n) \<le> 2 ^ nat_log2 m"
    by (intro power_increasing) simp_all
  ultimately show False using mn by linarith
qed

lemma round_even_of_int: "round_even (of_int n) = n"
  by (simp add: round_even_def)

lemma round_even_ge: "of_int n \<le> q \<Longrightarrow> n \<le> round_even q"
proof -
  assume "of_int n \<le> q"
  then have "n \<le> \<lfloor>q\<rfloor>" by (simp add: le_floor_iff)
  then show ?thesis by (auto simp: round_even_def Let_def)
qed

lemma round_even_le: "q \<le> of_int n \<Longrightarrow> round_even q \<le> n"
proof (cases "q = of_int n")
  case True
  then show ?thesis by (simp add: round_even_of_int)
next
  case False
  assume "q \<le> of_int n"
  with False have "q < of_int n" by simp
  then have "\<lfloor>q\<rfloor> < n" by (simp add: floor_less_iff)
  then show ?thesis by (auto simp: round_even_def Let_def)
qed


lemma scaled_bounds:
  assumes "0 \<le> x"
  shows "x * 2 ^ min_exp < 2 ^ (ulp_exp x + 53)"
    and "0 < ulp_exp x \<Longrightarrow> 2 ^ (ulp_exp x + 52) \<le> x * 2 ^ min_exp"
proof -
  let ?X = "x * 2 ^ min_exp"
  let ?n = "nat \<lfloor>?X\<rfloor>"
  from assms have X0: "0 \<le> ?X" by simp
  then have fl: "of_nat ?n \<le> ?X" "?X < of_nat ?n + 1"
    using floor_correct [of ?X] by (simp_all add: of_nat_nat)
  show "?X < 2 ^ (ulp_exp x + 53)"
  proof (cases "?n = 0")
    case True
    with fl(2) have "?X < 1" by simp
    also have "(1::rat) \<le> 2 ^ (ulp_exp x + 53)" by simp
    finally show ?thesis .
  next
    case False
    then have "?n < 2 ^ Suc (nat_log2 ?n)" using nat_log2_bounds [of ?n] by simp
    then have "?n + 1 \<le> 2 ^ Suc (nat_log2 ?n)" by simp
    also have "\<dots> \<le> 2 ^ (ulp_exp x + 53)"
      by (intro power_increasing) (simp_all add: ulp_exp_def)
    finally have "of_nat (?n + 1) \<le> (of_nat (2 ^ (ulp_exp x + 53)) :: rat)"
      by (simp only: of_nat_le_iff)
    with fl(2) show ?thesis by simp
  qed
  show "2 ^ (ulp_exp x + 52) \<le> ?X" if "0 < ulp_exp x"
  proof -
    from that have L: "nat_log2 ?n = ulp_exp x + 52" by (simp add: ulp_exp_def)
    then have "?n \<noteq> 0" using that by (auto simp: nat_log2.simps)
    then have le: "2 ^ nat_log2 ?n \<le> ?n" using nat_log2_bounds [of ?n] by simp
    have "(2::rat) ^ nat_log2 ?n = of_nat (2 ^ nat_log2 ?n)" by simp
    also have "\<dots> \<le> of_nat ?n" using le by (simp only: of_nat_le_iff)
    also have "\<dots> \<le> ?X" by (rule fl(1))
    finally show ?thesis by (simp only: L)
  qed
qed

lemma ulp_exp_mono: "0 \<le> x \<Longrightarrow> x \<le> z \<Longrightarrow> ulp_exp x \<le> ulp_exp z"
proof -
  assume "0 \<le> x" "x \<le> z"
  then have "\<lfloor>x * 2 ^ min_exp\<rfloor> \<le> \<lfloor>z * 2 ^ min_exp\<rfloor>" by (intro floor_mono) simp
  then have "nat_log2 (nat \<lfloor>x * 2 ^ min_exp\<rfloor>) \<le> nat_log2 (nat \<lfloor>z * 2 ^ min_exp\<rfloor>)"
    by (intro nat_log2_mono) simp
  then show ?thesis by (simp add: ulp_exp_def)
qed


lemma mantissa_bounds:
  assumes "0 \<le> x"
  shows "0 \<le> round_even (x * 2 ^ min_exp / 2 ^ ulp_exp x)"
    and "round_even (x * 2 ^ min_exp / 2 ^ ulp_exp x) \<le> 2 ^ 53"
    and "0 < ulp_exp x \<Longrightarrow> 2 ^ 52 \<le> round_even (x * 2 ^ min_exp / 2 ^ ulp_exp x)"
proof -
  let ?X = "x * 2 ^ min_exp"
  let ?e = "ulp_exp x"
  have p: "(0::rat) < 2 ^ ?e" by simp
  from assms have "of_int 0 \<le> ?X / 2 ^ ?e" by simp
  then show "0 \<le> round_even (?X / 2 ^ ?e)" by (rule round_even_ge)
  have "?X < 2 ^ 53 * 2 ^ ?e"
    using scaled_bounds(1) [OF assms] by (simp add: power_add mult.commute)
  then have "?X / 2 ^ ?e < 2 ^ 53" using p by (simp only: pos_divide_less_eq)
  then have "?X / 2 ^ ?e \<le> of_int (2 ^ 53)" by simp
  then show "round_even (?X / 2 ^ ?e) \<le> 2 ^ 53" by (rule round_even_le)
  show "2 ^ 52 \<le> round_even (?X / 2 ^ ?e)" if "0 < ?e"
  proof -
    have "2 ^ 52 * 2 ^ ?e \<le> ?X"
      using scaled_bounds(2) [OF assms that] by (simp add: power_add mult.commute)
    then have "2 ^ 52 \<le> ?X / 2 ^ ?e" using p by (simp only: pos_le_divide_eq)
    then have "of_int (2 ^ 52) \<le> ?X / 2 ^ ?e" by simp
    then show ?thesis by (rule round_even_ge)
  qed
qed

lemma nearest_of_grid:
  assumes "x * 2 ^ min_exp = of_int i * 2 ^ ulp_exp x"
  shows "nearest x = x"
proof -
  have "x * 2 ^ min_exp / 2 ^ ulp_exp x = of_int i" using assms by simp
  then have "nearest x = of_int i * 2 ^ ulp_exp x / 2 ^ min_exp"
    by (simp only: nearest_def round_even_of_int)
  also have "\<dots> = x" using assms [symmetric] by simp
  finally show ?thesis .
qed

lemma nearest_fixed:
  assumes "k \<le> 2 ^ 53"
  shows "nearest (of_nat k * 2 ^ j / 2 ^ min_exp) = of_nat k * 2 ^ j / 2 ^ min_exp"
proof -
  let ?x = "of_nat k * 2 ^ j / 2 ^ min_exp :: rat"
  let ?e = "ulp_exp ?x"
  have x0: "0 \<le> ?x" by simp
  have X: "?x * 2 ^ min_exp = of_nat (k * 2 ^ j)" by simp
  have "\<exists>i. ?x * 2 ^ min_exp = of_int i * 2 ^ ?e"
  proof (cases "?e \<le> j")
    case True
    then have "(2::rat) ^ j = 2 ^ (j - ?e) * 2 ^ ?e" by (simp flip: power_add)
    then have "?x * 2 ^ min_exp = of_int (int k * 2 ^ (j - ?e)) * 2 ^ ?e" by simp
    then show ?thesis ..
  next
    case False
    then have pos: "0 < ?e" and j: "Suc j \<le> ?e" by simp_all
    have lo: "(2::nat) ^ (?e + 52) \<le> k * 2 ^ j"
    proof -
      have "(of_nat (2 ^ (?e + 52)) :: rat) \<le> of_nat (k * 2 ^ j)"
        using scaled_bounds(2) [OF x0 pos] by (simp only: X of_nat_power of_nat_numeral)
      then show ?thesis by (simp only: of_nat_le_iff)
    qed
    have "k = 2 ^ 53"
    proof (rule ccontr)
      assume "k \<noteq> 2 ^ 53"
      with assms have "k < 2 ^ 53" by simp
      then have "k * 2 ^ j < 2 ^ 53 * 2 ^ j" by simp
      also have "\<dots> = 2 ^ (52 + Suc j)" by (simp add: power_add)
      also have "\<dots> \<le> 2 ^ (52 + ?e)" using j by (intro power_increasing) simp_all
      finally show False using lo by (simp add: add.commute)
    qed
    with lo have "(2::nat) ^ (?e + 52) \<le> 2 ^ (53 + j)" by (simp add: power_add)
    then have "?e + 52 \<le> 53 + j" by simp
    with j have e: "?e = Suc j" by simp
    have "?x * 2 ^ min_exp = of_nat (2 ^ 53 * 2 ^ j)" using X \<open>k = 2 ^ 53\<close> by simp
    also have "\<dots> = of_int (2 ^ 52) * 2 ^ Suc j" by simp
    finally have "?x * 2 ^ min_exp = of_int (2 ^ 52) * 2 ^ ?e" by (simp only: e)
    then show ?thesis ..
  qed
  then obtain i where "?x * 2 ^ min_exp = of_int i * 2 ^ ?e" ..
  then show ?thesis by (rule nearest_of_grid)
qed


lemma nearest_scaled:
  "nearest x * 2 ^ min_exp = of_int (round_even (x * 2 ^ min_exp / 2 ^ ulp_exp x)) * 2 ^ ulp_exp x"
  by (simp add: nearest_def)

lemma nearest_form:
  assumes "0 \<le> x"
  shows "\<exists>k \<le> 2 ^ 53. nearest x = of_nat k * 2 ^ ulp_exp x / 2 ^ min_exp"
proof -
  let ?m = "round_even (x * 2 ^ min_exp / 2 ^ ulp_exp x)"
  from mantissa_bounds(1,2) [OF assms] have "nat ?m \<le> 2 ^ 53" "of_nat (nat ?m) = (of_int ?m :: rat)"
    by simp_all
  then show ?thesis unfolding nearest_def by (intro exI [of _ "nat ?m"]) simp
qed

lemma nearest_idem: "0 \<le> x \<Longrightarrow> nearest (nearest x) = nearest x"
  using nearest_form [of x] nearest_fixed by auto

lemma nearest_nonneg: "0 \<le> x \<Longrightarrow> 0 \<le> nearest x"
  using mantissa_bounds(1) [of x] by (simp add: nearest_def)

lemma scaled_le: "a \<le> nearest x \<longleftrightarrow> a * 2 ^ min_exp \<le> nearest x * 2 ^ min_exp"
  by simp

lemma nearest_ge:
  assumes "0 \<le> a" and "nearest a = a" and "a \<le> x"
  shows "a \<le> nearest x"
proof -
  let ?A = "a * 2 ^ min_exp" and ?X = "x * 2 ^ min_exp"
  let ?ea = "ulp_exp a" and ?ex = "ulp_exp x"
  let ?ma = "round_even (?A / 2 ^ ?ea)" and ?mx = "round_even (?X / 2 ^ ?ex)"
  from assms have x0: "0 \<le> x" by simp
  have A: "?A = of_int ?ma * 2 ^ ?ea" using nearest_scaled [of a] assms(2) by simp
  have e: "?ea \<le> ?ex" using assms(1,3) by (rule ulp_exp_mono)
  have "?A \<le> of_int ?mx * 2 ^ ?ex"
  proof (cases "?ea = ?ex")
    case True
    from assms(3) have "?A / 2 ^ ?ex \<le> ?X / 2 ^ ?ex" by (simp add: divide_right_mono)
    moreover have "?A / 2 ^ ?ea = of_int ?ma" by (subst A) simp
    ultimately have "of_int ?ma \<le> ?X / 2 ^ ?ex" by (simp only: True)
    then have "?ma \<le> ?mx" by (rule round_even_ge)
    then have "(of_int ?ma :: rat) * 2 ^ ?ex \<le> of_int ?mx * 2 ^ ?ex" by simp
    with A True show ?thesis by simp
  next
    case False
    with e have lt: "?ea + 53 \<le> ?ex + 52" and pos: "0 < ?ex" by simp_all
    have "?A < 2 ^ (?ea + 53)" using assms(1) by (rule scaled_bounds(1))
    also have "\<dots> \<le> (2::rat) ^ (?ex + 52)" using lt by (intro power_increasing) simp_all
    also have "\<dots> = of_int (2 ^ 52) * 2 ^ ?ex" by (simp add: power_add)
    also have "\<dots> \<le> of_int ?mx * 2 ^ ?ex"
      using mantissa_bounds(3) [OF x0 pos] by (intro mult_right_mono) simp_all
    finally show ?thesis by simp
  qed
  then show ?thesis by (simp only: scaled_le nearest_scaled)
qed

lemma nearest_le:
  assumes "0 \<le> x" and "x \<le> a" and "nearest a = a"
  shows "nearest x \<le> a"
proof -
  let ?A = "a * 2 ^ min_exp" and ?X = "x * 2 ^ min_exp"
  let ?ea = "ulp_exp a" and ?ex = "ulp_exp x"
  let ?ma = "round_even (?A / 2 ^ ?ea)" and ?mx = "round_even (?X / 2 ^ ?ex)"
  have A: "?A = of_int ?ma * 2 ^ ?ea" using nearest_scaled [of a] assms(3) by simp
  have e: "?ex \<le> ?ea" using assms(1,2) by (rule ulp_exp_mono)
  then have "(2::rat) ^ ?ea = 2 ^ (?ea - ?ex) * 2 ^ ?ex" by (simp flip: power_add)
  with A have A': "?A = of_int (?ma * 2 ^ (?ea - ?ex)) * 2 ^ ?ex" by simp
  from assms(2) have "?X / 2 ^ ?ex \<le> ?A / 2 ^ ?ex" by (simp add: divide_right_mono)
  also have "?A / 2 ^ ?ex = of_int (?ma * 2 ^ (?ea - ?ex))" by (subst A') simp
  finally have "?mx \<le> ?ma * 2 ^ (?ea - ?ex)" by (rule round_even_le)
  then have "(of_int ?mx :: rat) * 2 ^ ?ex \<le> of_int (?ma * 2 ^ (?ea - ?ex)) * 2 ^ ?ex"
    by (intro mult_right_mono) (simp_all only: of_int_le_iff zero_le_power zero_le_numeral)
  then have "nearest x * 2 ^ min_exp \<le> ?A" by (simp only: nearest_scaled A' [symmetric])
  then show ?thesis by simp
qed

lemma nearest_pos:
  assumes "1 \<le> x * 2 ^ min_exp"
  shows "0 < nearest x"
proof -
  let ?X = "x * 2 ^ min_exp" and ?ex = "ulp_exp x"
  from assms have "0 < x * 2 ^ min_exp" by simp
  then have x0: "0 \<le> x" by (simp add: zero_less_mult_iff)
  have "1 \<le> round_even (?X / 2 ^ ?ex)"
  proof (cases "0 < ?ex")
    case True
    from mantissa_bounds(3) [OF x0 True] show ?thesis by simp
  next
    case False
    with assms have "of_int 1 \<le> ?X / 2 ^ ?ex" by simp
    then show ?thesis by (rule round_even_ge)
  qed
  then show ?thesis by (simp add: nearest_def)
qed

lemma nat_log2_power: "p \<le> nat_log2 (2 ^ p)"
proof -
  have "(2::nat) ^ p < 2 ^ Suc (nat_log2 (2 ^ p))"
    using nat_log2_bounds [of "2 ^ p"] by simp
  then have "p < Suc (nat_log2 (2 ^ p))" by (rule power_less_imp_less_exp [rotated]) simp
  then show ?thesis by simp
qed

lemma nearest_of_nat: "\<exists>k. nearest (of_nat n) = of_nat k"
proof (cases "n \<le> 2 ^ 53")
  case True
  from nearest_fixed [OF True, of min_exp] have "nearest (of_nat n) = of_nat n" by simp
  then show ?thesis ..
next
  case False
  let ?x = "of_nat n :: rat"
  let ?m = "round_even (?x * 2 ^ min_exp / 2 ^ ulp_exp ?x)"
  have fl: "nat \<lfloor>?x * 2 ^ min_exp\<rfloor> = n * 2 ^ min_exp"
  proof -
    have "?x * 2 ^ min_exp = of_int (int (n * 2 ^ min_exp))" by simp
    then have "\<lfloor>?x * 2 ^ min_exp\<rfloor> = int (n * 2 ^ min_exp)" by (simp only: floor_of_int)
    then show ?thesis by (simp only: nat_int)
  qed
  from False have "2 ^ 53 * 2 ^ min_exp \<le> n * 2 ^ min_exp" by simp
  then have "nat_log2 (2 ^ (53 + min_exp)) \<le> nat_log2 (n * 2 ^ min_exp)"
    by (intro nat_log2_mono) (simp add: power_add)
  with nat_log2_power [of "53 + min_exp"] have "53 + min_exp \<le> nat_log2 (n * 2 ^ min_exp)"
    by simp
  then have e: "min_exp \<le> ulp_exp ?x" by (simp add: ulp_exp_def fl)
  then have "(2::rat) ^ ulp_exp ?x = 2 ^ (ulp_exp ?x - min_exp) * 2 ^ min_exp"
    by (simp flip: power_add)
  then have "nearest ?x = of_int ?m * 2 ^ (ulp_exp ?x - min_exp)"
    by (simp add: nearest_def)
  moreover have "0 \<le> ?m" by (rule mantissa_bounds(1)) simp
  ultimately have "nearest ?x = of_nat (nat ?m * 2 ^ (ulp_exp ?x - min_exp))" by simp
  then show ?thesis ..
qed


subsection \<open>Rounding: sign, fixed points and order\<close>

lemma nearest_zero: "nearest 0 = 0"
  by (simp add: nearest_def round_even_def)

lemma round_pos_cases:
  assumes "0 \<le> x"
  obtains "round_pos x = PInf" "2 ^ max_exp \<le> nearest x"
  | "round_pos x = Fin (nearest x)" "0 \<le> nearest x" "nearest x < 2 ^ max_exp"
  using nearest_nonneg [OF assms] by (cases "2 ^ max_exp \<le> nearest x") (auto simp: round_pos_def)

lemma round_pos_fixed: "0 \<le> x \<Longrightarrow> round_pos x = Fin y \<Longrightarrow> round_pos y = Fin y"
  by (auto simp: round_pos_def nearest_idem split: if_splits)

lemma round_pos_Fin_iff: "round_pos a = Fin a \<longleftrightarrow> nearest a = a \<and> a < 2 ^ max_exp"
  by (auto simp: round_pos_def)

lemma to_double_zero: "to_double 0 = Fin 0"
proof -
  have "(0::rat) < 2 ^ max_exp" by simp
  then have "\<not> 2 ^ max_exp \<le> (0::rat)" by (simp only: not_le)
  then show ?thesis by (simp add: to_double_def round_pos_def nearest_zero)
qed

lemma to_double_minus: "to_double (- x) = js_neg (to_double x)"
proof (cases "x = 0")
  case True
  then show ?thesis by (simp add: to_double_zero)
next
  case False
  then show ?thesis
    by (cases "round_pos x"; cases "round_pos (- x)") (auto simp: to_double_def)
qed

lemma to_double_nonneg:
  assumes "0 \<le> x"
  shows "to_double x = PInf \<or> (\<exists>y. to_double x = Fin y \<and> 0 \<le> y)"
proof -
  from assms have t: "to_double x = round_pos x" by (simp add: to_double_def)
  from assms show ?thesis
  proof (rule round_pos_cases)
    assume "round_pos x = PInf"
    with t show ?thesis by simp
  next
    assume "round_pos x = Fin (nearest x)" "0 \<le> nearest x"
    with t show ?thesis by simp
  qed
qed

lemma to_double_idem: "to_double x = Fin y \<Longrightarrow> to_double y = Fin y"
proof (cases "x < 0")
  case False
  assume "to_double x = Fin y"
  with False have r: "round_pos x = Fin y" and x0: "0 \<le> x" by (simp_all add: to_double_def)
  then have "0 \<le> y" using nearest_nonneg [OF x0] by (auto simp: round_pos_def split: if_splits)
  with round_pos_fixed [OF x0 r] show ?thesis by (simp add: to_double_def)
next
  case True
  assume "to_double x = Fin y"
  with True have "js_neg (round_pos (- x)) = Fin y" by (simp add: to_double_def)
  then have r: "round_pos (- x) = Fin (- y)" by (cases "round_pos (- x)") auto
  from True have x0: "0 \<le> - x" by simp
  from r have "0 \<le> - y" using nearest_nonneg [OF x0] by (auto simp: round_pos_def split: if_splits)
  from round_pos_fixed [OF x0 r] have "to_double (- y) = Fin (- y)"
    using \<open>0 \<le> - y\<close> by (simp add: to_double_def)
  then have "to_double (- (- y)) = js_neg (Fin (- y))" by (simp only: to_double_minus)
  then show ?thesis by simp
qed

lemma double_val_to_double: "double_val (to_double x)"
  by (cases "to_double x") (auto simp: is_double_def dest: to_double_idem)

lemma is_double_dyadic:
  assumes "k \<le> 2 ^ 53" and "of_nat k * 2 ^ j / 2 ^ min_exp < (2::rat) ^ max_exp"
  shows "is_double (of_nat k * 2 ^ j / 2 ^ min_exp)"
proof -
  have "\<not> of_nat k * 2 ^ j / 2 ^ min_exp < (0::rat)" by (simp add: not_less)
  then show ?thesis
    using assms(2) nearest_fixed [OF assms(1), of j]
    by (simp add: is_double_def to_double_def round_pos_def)
qed

lemma exp_limits: "53 < max_exp" "10 \<le> min_exp"
  by (simp_all add: max_exp_def min_exp_def)

lemma is_double_of_nat:
  assumes "n \<le> 2 ^ 53"
  shows "is_double (of_nat n)"
proof -
  have "(of_nat n :: rat) \<le> of_nat (2 ^ 53)" using assms by (simp only: of_nat_le_iff)
  also have "\<dots> = (2::rat) ^ 53" by simp
  also have "\<dots> < 2 ^ max_exp" using exp_limits(1) by (intro power_strict_increasing) simp_all
  finally have "of_nat n * 2 ^ min_exp / 2 ^ min_exp < (2::rat) ^ max_exp" by simp
  from is_double_dyadic [OF assms this] show ?thesis by simp
qed

lemma is_double_minus: "is_double a \<Longrightarrow> is_double (- a)"
  by (simp add: is_double_def to_double_minus)

lemma is_double_of_int:
  assumes "\<bar>n\<bar> \<le> 2 ^ 53"
  shows "is_double (of_int n)"
proof (cases "0 \<le> n")
  case True
  with assms have "nat n \<le> 2 ^ 53" by simp
  from is_double_of_nat [OF this] True show ?thesis by simp
next
  case False
  with assms have "nat (- n) \<le> 2 ^ 53" by simp
  from is_double_minus [OF is_double_of_nat [OF this]] False show ?thesis by simp
qed

lemma to_double_numeral:
  "numeral k \<le> (9007199254740992::int) \<Longrightarrow> to_double (numeral k) = Fin (numeral k)"
  "numeral k \<le> (9007199254740992::int) \<Longrightarrow> to_double (- numeral k) = Fin (- numeral k)"
  "to_double 1 = Fin 1"
  using is_double_of_int [of "numeral k"] is_double_of_int [of "- numeral k"]
    is_double_of_int [of 1]
  by (simp_all add: is_double_def)

declare to_double_zero [simp] and to_double_numeral [simp]


lemma is_double_nearest: "0 \<le> a \<Longrightarrow> is_double a \<Longrightarrow> nearest a = a \<and> a < 2 ^ max_exp"
  by (simp add: is_double_def to_double_def round_pos_Fin_iff)

lemma to_double_ge_nonneg:
  assumes "0 \<le> a" and "is_double a" and "a \<le> x"
  shows "to_double x = PInf \<or> (\<exists>y. to_double x = Fin y \<and> a \<le> y)"
proof -
  from assms have x0: "0 \<le> x" by simp
  then have t: "to_double x = round_pos x" by (simp add: to_double_def)
  from is_double_nearest [OF assms(1,2)] have "nearest a = a" by simp
  with assms(1) have "a \<le> nearest x" using assms(3) by (rule nearest_ge)
  then show ?thesis by (simp add: t round_pos_def)
qed

lemma to_double_le_nonneg:
  assumes "0 \<le> x" and "x \<le> a" and "is_double a"
  shows "\<exists>y. to_double x = Fin y \<and> 0 \<le> y \<and> y \<le> a"
proof -
  from assms have a0: "0 \<le> a" by simp
  from assms(1) have t: "to_double x = round_pos x" by (simp add: to_double_def)
  from is_double_nearest [OF a0 assms(3)] have a: "nearest a = a" "a < 2 ^ max_exp" by simp_all
  from assms(1,2) a(1) have "nearest x \<le> a" by (rule nearest_le)
  with a(2) have "\<not> 2 ^ max_exp \<le> nearest x" by simp
  with \<open>nearest x \<le> a\<close> nearest_nonneg [OF assms(1)] show ?thesis
    by (simp add: t round_pos_def)
qed

lemma to_double_ge:
  assumes "is_double a" and "a \<le> x"
  shows "to_double x = PInf \<or> (\<exists>y. to_double x = Fin y \<and> a \<le> y)"
proof (cases "0 \<le> a")
  case True
  then show ?thesis using assms by (rule to_double_ge_nonneg)
next
  case a: False
  show ?thesis
  proof (cases "0 \<le> x")
    case True
    with to_double_nonneg [OF True] a show ?thesis by auto
  next
    case False
    then have "0 \<le> - x" "- x \<le> - a" using assms(2) by simp_all
    moreover have "is_double (- a)" using assms(1) by (rule is_double_minus)
    ultimately obtain y where y: "to_double (- x) = Fin y" "y \<le> - a"
      using to_double_le_nonneg by blast
    from y(1) have "js_neg (to_double x) = Fin y" by (simp only: to_double_minus)
    then have "to_double x = Fin (- y)" by (cases "to_double x") auto
    with y(2) show ?thesis by simp
  qed
qed

lemma pow2_is_double: "j < max_exp \<Longrightarrow> is_double (2 ^ j)"
proof -
  assume "j < max_exp"
  then have "(2::rat) ^ j < 2 ^ max_exp" by (intro power_strict_increasing) simp_all
  then have "of_nat 1 * 2 ^ (j + min_exp) / 2 ^ min_exp < (2::rat) ^ max_exp"
    by (simp add: power_add)
  from is_double_dyadic [OF _ this] show ?thesis by (simp add: power_add)
qed

lemma to_double_overflow:
  assumes "2 ^ max_exp \<le> x"
  shows "to_double x = PInf"
proof -
  have x0: "0 \<le> x" using assms by (rule order_trans [rotated]) simp
  have "nearest (of_nat 1 * 2 ^ (max_exp + min_exp) / 2 ^ min_exp)
      = of_nat 1 * 2 ^ (max_exp + min_exp) / 2 ^ min_exp"
    by (rule nearest_fixed) simp
  then have "nearest (2 ^ max_exp) = 2 ^ max_exp" by (simp add: power_add)
  then have "2 ^ max_exp \<le> nearest x" using assms by (intro nearest_ge) simp_all
  with x0 show ?thesis by (simp add: to_double_def round_pos_def)
qed

lemma to_double_of_nat: "to_double (of_nat n) = PInf \<or> (\<exists>k. to_double (of_nat n) = Fin (of_nat k))"
proof -
  obtain k where "nearest (of_nat n) = of_nat k" using nearest_of_nat by blast
  then show ?thesis by (auto simp: to_double_def round_pos_def)
qed

lemma to_double_pos:
  assumes "1 \<le> x * 2 ^ min_exp"
  shows "to_double x = PInf \<or> (\<exists>y. to_double x = Fin y \<and> 0 < y)"
proof -
  from assms have "0 < x * 2 ^ min_exp" by simp
  then have "0 \<le> x" by (simp add: zero_less_mult_iff)
  then have "to_double x = round_pos x" by (simp add: to_double_def)
  with nearest_pos [OF assms] show ?thesis by (simp add: round_pos_def)
qed

lemma to_double_nonpos:
  assumes "x \<le> 0"
  shows "to_double x = NInf \<or> (\<exists>y. to_double x = Fin y \<and> y \<le> 0)"
proof -
  from assms have "0 \<le> - x" by simp
  from to_double_nonneg [OF this] show ?thesis
    unfolding to_double_minus by (cases "to_double x") auto
qed

subsection \<open>Arithmetic on doubles\<close>

lemma double_val_js_add: "double_val (js_add x y)"
  by (cases x; cases y) (simp_all add: double_val_to_double)

lemma js_add_zero: "double_val x \<Longrightarrow> js_add x (Fin 0) = x"
  by (cases x) (simp_all add: is_double_def)


lemma deltaSeconds_pos:
  assumes "t < now"
  shows "deltaSeconds now t = PInf \<or> (\<exists>d. deltaSeconds now t = Fin d \<and> 0 < d)"
proof -
  have one: "is_double 1" using is_double_of_nat [of 1] by simp
  from assms have "(1::rat) \<le> of_int now + - of_int t"
    using of_int_le_iff [of "1" "now - t", where ?'a = rat] by simp
  from to_double_ge [OF one this]
  consider "js_sub (Fin (of_int now)) (Fin (of_int t)) = PInf"
    | y where "js_sub (Fin (of_int now)) (Fin (of_int t)) = Fin y" "1 \<le> y"
    by (auto simp: js_sub_def)
  then show ?thesis
  proof cases
    case 1
    then show ?thesis by (simp add: deltaSeconds_def)
  next
    case 2
    have "(1000::rat) \<le> 2 ^ 10" by simp
    also have "\<dots> \<le> 2 ^ min_exp" using exp_limits(2) by (intro power_increasing) simp_all
    finally have "1 \<le> (1 / 1000) * (2::rat) ^ min_exp" by simp
    also have "\<dots> \<le> (y / 1000) * 2 ^ min_exp" using 2(2) by (intro mult_right_mono) simp_all
    finally have "1 \<le> (y / 1000) * (2::rat) ^ min_exp" .
    from to_double_pos [OF this] 2(1) show ?thesis by (simp add: deltaSeconds_def)
  qed
qed

lemma deltaSeconds_nonpos:
  assumes "now \<le> t"
  shows "deltaSeconds now t = NInf \<or> (\<exists>d. deltaSeconds now t = Fin d \<and> d \<le> 0)"
proof -
  from assms have "of_int now + - of_int t \<le> (0::rat)" by simp
  from to_double_nonpos [OF this]
  consider "js_sub (Fin (of_int now)) (Fin (of_int t)) = NInf"
    | y where "js_sub (Fin (of_int now)) (Fin (of_int t)) = Fin y" "y \<le> 0"
    by (auto simp: js_sub_def)
  then show ?thesis
  proof cases
    case 1
    then show ?thesis by (simp add: deltaSeconds_def)
  next
    case 2
    then have "y / 1000 \<le> 0" by simp
    from to_double_nonpos [OF this] 2(1) show ?thesis by (simp add: deltaSeconds_def)
  qed
qed

subsection \<open>Splitting\<close>

lemma split_on_not_Nil: "split_on sep s \<noteq> []"
  by (induction s) (auto split: list.splits)

lemma split_on_no_sep: "sep \<notin> set s \<Longrightarrow> split_on sep s = [s]"
  by (induction s) auto

lemma split_on_sep:
  "sep \<in> set s \<Longrightarrow>
   split_on sep s =
     takeWhile (\<lambda>c. c \<noteq> sep) s # split_on sep (drop 1 (dropWhile (\<lambda>c. c \<noteq> sep) s))"
  by (induction s) (auto split: list.splits simp: split_on_not_Nil)

lemma hd_split_on: "hd (split_on sep s) = takeWhile (\<lambda>c. c \<noteq> sep) s"
  by (induction s) (auto split: list.splits simp: split_on_not_Nil)

lemma split_on_two:
  "sep \<in> set s \<Longrightarrow>
   \<exists>more. split_on sep s =
     takeWhile (\<lambda>c. c \<noteq> sep) s
       # takeWhile (\<lambda>c. c \<noteq> sep) (drop 1 (dropWhile (\<lambda>c. c \<noteq> sep) s)) # more"
proof -
  assume "sep \<in> set s"
  let ?rest = "drop 1 (dropWhile (\<lambda>c. c \<noteq> sep) s)"
  obtain p ps where ps: "split_on sep ?rest = p # ps"
    using split_on_not_Nil [of sep ?rest] by (cases "split_on sep ?rest") auto
  then have "p = takeWhile (\<lambda>c. c \<noteq> sep) ?rest"
    using hd_split_on [of sep ?rest] by simp
  with ps \<open>sep \<in> set s\<close> show ?thesis by (simp add: split_on_sep)
qed


subsection \<open>One line of the counter file\<close>

lemma isAllowedInterface_iff: "isAllowedInterface n = (\<not> excluded_name n)"
  by (simp add: isAllowedInterface_def NETWORK_INTERFACE_EXCLUDES_def excluded_name_def)

lemma loop_body_counted:
  "loop_body line acc =
     (if counted_line line
      then \<lparr>rxBytes = js_add (rxBytes acc) (num_or_zero (fields_of line ! 0)),
            txBytes = js_add (txBytes acc) (num_or_zero (fields_of line ! 8))\<rparr>
      else acc)"
proof (cases "ch CHR '':'' \<in> set (trim line)")
  case False
  then have "split_on (ch CHR '':'') (trim line) = [trim line]"
    by (rule split_on_no_sep)
  with False show ?thesis
    by (simp add: loop_body_def counted_line_def skipped_line_def)
next
  case True
  then have ne: "trim line \<noteq> []" by auto
  from True obtain more where sp: "split_on (ch CHR '':'') (trim line) =
      takeWhile (\<lambda>c. c \<noteq> ch CHR '':'') (trim line) # field_text line # more"
    unfolding field_text_def using split_on_two [of "ch CHR '':''" "trim line"] by blast
  show ?thesis
  proof (cases "field_text line = []")
    case True
    then have "fields_of line = [[]]" by (simp add: fields_of_def trim_def)
    with True sp ne show ?thesis
      by (simp add: loop_body_def counted_line_def skipped_line_def)
  next
    case False
    with sp ne True show ?thesis
      by (simp add: loop_body_def counted_line_def skipped_line_def isAllowedInterface_iff
          iface_name_def fields_of_def Let_def not_less)
  qed
qed

subsection \<open>The sample inputs, evaluated\<close>

lemma lines_of_sample_text:
  "lines_of sample_text =
     [str ''Inter-| Receive'', str '' face |bytes'', str ''    lo: 77 0 0 0 0 0 0 0 77'',
      str ''  eth0: 3000 9 0 0 0 0 0 0 500'', []]"
  by (simp add: lines_of_def sample_text_def str_def)

lemma lines_of_later_text:
  "lines_of later_text =
     [str ''Inter-| Receive'', str '' face |bytes'', str ''  eth0: 100 9 0 0 0 0 0 0 900'', []]"
  by (simp add: lines_of_def later_text_def str_def)

lemma counted_line_blank: "\<not> counted_line []"
  by (simp add: counted_line_def skipped_line_def trim_def)

lemma counted_line_lo: "\<not> counted_line (str ''    lo: 77 0 0 0 0 0 0 0 77'')"
  by (simp add: counted_line_def iface_name_def excluded_name_def trim_def is_ws_def str_def)

lemma fields_of_eth0:
  "fields_of (str ''  eth0: 3000 9 0 0 0 0 0 0 500'') =
     [str ''3000'', str ''9'', str ''0'', str ''0'', str ''0'', str ''0'', str ''0'', str ''0'',
      str ''500'']"
  by (simp add: fields_of_def field_text_def trim_def is_ws_def str_def)

lemma fields_of_eth0_later:
  "fields_of (str ''  eth0: 100 9 0 0 0 0 0 0 900'') =
     [str ''100'', str ''9'', str ''0'', str ''0'', str ''0'', str ''0'', str ''0'', str ''0'',
      str ''900'']"
  by (simp add: fields_of_def field_text_def trim_def is_ws_def str_def)

lemma iface_name_eth0: "iface_name (str ''  eth0: 3000 9 0 0 0 0 0 0 500'') = str ''eth0''"
  by (simp add: iface_name_def trim_def is_ws_def str_def)

lemma iface_name_eth0_later: "iface_name (str ''  eth0: 100 9 0 0 0 0 0 0 900'') = str ''eth0''"
  by (simp add: iface_name_def trim_def is_ws_def str_def)

lemma not_excluded_eth0: "\<not> excluded_name (str ''eth0'')"
  by (simp add: excluded_name_def str_def)

lemma counted_line_eth0: "counted_line (str ''  eth0: 3000 9 0 0 0 0 0 0 500'')"
  by (simp add: counted_line_def skipped_line_def fields_of_eth0 iface_name_eth0
      not_excluded_eth0) (simp add: trim_def is_ws_def str_def)

lemma counted_line_eth0_later: "counted_line (str ''  eth0: 100 9 0 0 0 0 0 0 900'')"
  by (simp add: counted_line_def skipped_line_def fields_of_eth0_later iface_name_eth0_later
      not_excluded_eth0) (simp add: trim_def is_ws_def str_def)

lemmas number_defs =
  num_or_zero_def to_number_def trim_def is_ws_def non_decimal_def unsigned_decimal_def
  str_def is_digit_def digits_val_def exponent_part_def pow10_def

lemma num_or_zero_3000: "num_or_zero (str ''3000'') = Fin 3000"
  by (simp add: number_defs)

lemma num_or_zero_500: "num_or_zero (str ''500'') = Fin 500"
  by (simp add: number_defs)

lemma num_or_zero_100: "num_or_zero (str ''100'') = Fin 100"
  by (simp add: number_defs)

lemma num_or_zero_900: "num_or_zero (str ''900'') = Fin 900"
  by (simp add: number_defs)

lemma lines_of_earlier_text:
  "lines_of earlier_text =
     [str ''Inter-| Receive'', str '' face |bytes'', str ''  eth0: 1000 9 0 0 0 0 0 0 500'', []]"
  by (simp add: lines_of_def earlier_text_def str_def)

lemma fields_of_eth0_earlier:
  "fields_of (str ''  eth0: 1000 9 0 0 0 0 0 0 500'') =
     [str ''1000'', str ''9'', str ''0'', str ''0'', str ''0'', str ''0'', str ''0'', str ''0'',
      str ''500'']"
  by (simp add: fields_of_def field_text_def trim_def is_ws_def str_def)

lemma iface_name_eth0_earlier: "iface_name (str ''  eth0: 1000 9 0 0 0 0 0 0 500'') = str ''eth0''"
  by (simp add: iface_name_def trim_def is_ws_def str_def)

lemma counted_line_eth0_earlier: "counted_line (str ''  eth0: 1000 9 0 0 0 0 0 0 500'')"
  by (simp add: counted_line_def skipped_line_def fields_of_eth0_earlier iface_name_eth0_earlier
      not_excluded_eth0) (simp add: trim_def is_ws_def str_def)

lemma num_or_zero_1000: "num_or_zero (str ''1000'') = Fin 1000"
  by (simp add: number_defs)

lemma parse_earlier_text:
  "parseProcNetDev earlier_text = \<lparr>rxBytes = Fin 1000, txBytes = Fin 500\<rparr>"
  by (simp add: parseProcNetDev_def lines_of_earlier_text loop_body_counted counted_line_blank
      counted_line_eth0_earlier fields_of_eth0_earlier num_or_zero_1000 num_or_zero_500)

lemma parse_sample_text:
  "parseProcNetDev sample_text = \<lparr>rxBytes = Fin 3000, txBytes = Fin 500\<rparr>"
  by (simp add: parseProcNetDev_def lines_of_sample_text loop_body_counted counted_line_blank
      counted_line_lo counted_line_eth0 fields_of_eth0 num_or_zero_3000 num_or_zero_500)

lemma parse_later_text:
  "parseProcNetDev later_text = \<lparr>rxBytes = Fin 100, txBytes = Fin 900\<rparr>"
  by (simp add: parseProcNetDev_def lines_of_later_text loop_body_counted counted_line_blank
      counted_line_eth0_later fields_of_eth0_later num_or_zero_100 num_or_zero_900)

subsection \<open>The loop over the lines\<close>

lemma parse_loop_append: "parse_loop (xs @ ys) acc = parse_loop ys (parse_loop xs acc)"
  by (induction xs arbitrary: acc) auto

lemma parse_loop_sum:
  "parse_loop ls acc =
     \<lparr>rxBytes = foldl js_add (rxBytes acc)
                  (map (\<lambda>l. num_or_zero (fields_of l ! 0)) (filter counted_line ls)),
      txBytes = foldl js_add (txBytes acc)
                  (map (\<lambda>l. num_or_zero (fields_of l ! 8)) (filter counted_line ls))\<rparr>"
  by (induction ls arbitrary: acc) (auto simp: loop_body_counted)

lemma parse_as_sum:
  "parseProcNetDev content =
     \<lparr>rxBytes = js_sum (map (\<lambda>l. num_or_zero (fields_of l ! 0)) (counted_lines content)),
      txBytes = js_sum (map (\<lambda>l. num_or_zero (fields_of l ! 8)) (counted_lines content))\<rparr>"
  by (simp add: parseProcNetDev_def parse_loop_sum [of _ "\<lparr>rxBytes = Fin 0, txBytes = Fin 0\<rparr>"]
      js_sum_def counted_lines_def)

lemma double_val_foldl: "double_val acc \<Longrightarrow> double_val (foldl js_add acc vs)"
  by (induction vs arbitrary: acc) (simp_all add: double_val_js_add)

lemma parse_double_val:
  "double_val (rxBytes (parseProcNetDev content))"
  "double_val (txBytes (parseProcNetDev content))"
  by (simp_all add: parse_as_sum js_sum_def double_val_foldl is_double_def)


lemma lines_of_join_lines:
  "ls \<noteq> [] \<Longrightarrow> \<forall>l \<in> set ls. ch CHR 0x0A \<notin> set l \<Longrightarrow> lines_of (join_lines ls) = ls"
proof (induction ls rule: join_lines.induct)
  case 1
  then show ?case by simp
next
  case (2 l)
  then show ?case by (simp add: lines_of_def split_on_no_sep)
next
  case (3 l l' ls)
  then have "lines_of (join_lines (l' # ls)) = l' # ls" by simp
  moreover have "split_on (ch CHR 0x0A) (l @ ch CHR 0x0A # rest)
      = l # split_on (ch CHR 0x0A) rest" for rest
    using 3(3) by (induction l) (auto simp: split_on_not_Nil split: list.splits)
  ultimately show ?case by (simp add: lines_of_def)
qed


lemma num_or_zero_NaN: "to_number f = NaN \<Longrightarrow> num_or_zero f = Fin 0"
  by (simp add: num_or_zero_def)

subsection \<open>Claims about the parser\<close>



subsection \<open>More evaluated samples\<close>

lemma lines_of_two_colon_text:
  "lines_of two_colon_text =
     [str ''Inter-| Receive'', str '' face |bytes'', str ''  eth0: 1 2 3 4 5 6 7 8 9:5'']"
  by (simp add: lines_of_def two_colon_text_def str_def)

lemma fields_of_two_colon:
  "fields_of (str ''  eth0: 1 2 3 4 5 6 7 8 9:5'') =
     [str ''1'', str ''2'', str ''3'', str ''4'', str ''5'', str ''6'', str ''7'', str ''8'',
      str ''9'']"
  by (simp add: fields_of_def field_text_def trim_def is_ws_def str_def)

lemma fields_first_colon_two_colon:
  "fields_first_colon (str ''  eth0: 1 2 3 4 5 6 7 8 9:5'') =
     [str ''1'', str ''2'', str ''3'', str ''4'', str ''5'', str ''6'', str ''7'', str ''8'',
      str ''9:5'']"
  by (simp add: fields_first_colon_def trim_def is_ws_def str_def)

lemma iface_name_two_colon: "iface_name (str ''  eth0: 1 2 3 4 5 6 7 8 9:5'') = str ''eth0''"
  by (simp add: iface_name_def trim_def is_ws_def str_def)

lemma counted_line_two_colon: "counted_line (str ''  eth0: 1 2 3 4 5 6 7 8 9:5'')"
  by (simp add: counted_line_def skipped_line_def fields_of_two_colon iface_name_two_colon
      not_excluded_eth0) (simp add: trim_def is_ws_def str_def)

lemma counted_first_colon_two_colon:
  "counted_first_colon (str ''  eth0: 1 2 3 4 5 6 7 8 9:5'')"
  by (simp add: counted_first_colon_def fields_first_colon_two_colon iface_name_two_colon
      not_excluded_eth0) (simp add: trim_def is_ws_def str_def)

lemma num_or_zero_1: "num_or_zero (str ''1'') = Fin 1"
  by (simp add: number_defs)

lemma num_or_zero_9: "num_or_zero (str ''9'') = Fin 9"
  by (simp add: number_defs)

lemma to_number_9_colon_5: "to_number (str ''9:5'') = NaN"
  by (simp add: number_defs)

text \<open>
  C7, as stated, fails on a line with a second colon: the parser takes the transmit
  counter 9 from the text between the two colons, while the field list after the first
  colon has the non-numeric \<open>9:5\<close> as its field 8.
\<close>

theorem first_colon_split_counterexample:
  "parseProcNetDev two_colon_text = \<lparr>rxBytes = Fin 1, txBytes = Fin 9\<rparr>
   \<and> parse_first_colon two_colon_text = \<lparr>rxBytes = Fin 1, txBytes = Fin 0\<rparr>"
proof
  show "parseProcNetDev two_colon_text = \<lparr>rxBytes = Fin 1, txBytes = Fin 9\<rparr>"
    by (simp add: parseProcNetDev_def lines_of_two_colon_text loop_body_counted
        counted_line_two_colon fields_of_two_colon num_or_zero_1 num_or_zero_9)
next
  show "parse_first_colon two_colon_text = \<lparr>rxBytes = Fin 1, txBytes = Fin 0\<rparr>"
    by (simp add: parse_first_colon_def lines_of_two_colon_text counted_first_colon_two_colon
        fields_first_colon_two_colon js_sum_def num_or_zero_1 num_or_zero_NaN to_number_9_colon_5)
qed

text \<open>
  C7, amended. The field list of a line is the text between its first and its second
  colon (to the end of the line when it has one colon). A line with no colon or with fewer
  than 9 fields can be removed from the text without changing the result, and a field 0
  or 8 that is not numeric adds nothing to its total.
\<close>

theorem malformed_lines_have_no_effect:
  assumes "\<forall>l \<in> set (h1 # h2 # pre @ line # post). ch CHR 0x0A \<notin> set l"
    and "ch CHR 0x0A \<notin> set line'"
  shows "(skipped_line line \<longrightarrow>
            parseProcNetDev (join_lines (h1 # h2 # pre @ line # post))
              = parseProcNetDev (join_lines (h1 # h2 # pre @ post)))
       \<and> (counted_line line' \<and> to_number (fields_of line' ! 0) = NaN \<longrightarrow>
            rxBytes (parseProcNetDev (join_lines (h1 # h2 # pre @ [line'])))
              = rxBytes (parseProcNetDev (join_lines (h1 # h2 # pre))))
       \<and> (counted_line line' \<and> to_number (fields_of line' ! 8) = NaN \<longrightarrow>
            txBytes (parseProcNetDev (join_lines (h1 # h2 # pre @ [line'])))
              = txBytes (parseProcNetDev (join_lines (h1 # h2 # pre))))"
proof -
  have with_line: "lines_of (join_lines (h1 # h2 # pre @ line # post)) = h1 # h2 # pre @ line # post"
    using assms(1) by (intro lines_of_join_lines) auto
  have without: "lines_of (join_lines (h1 # h2 # pre @ post)) = h1 # h2 # pre @ post"
    using assms(1) by (intro lines_of_join_lines) auto
  have with_line': "lines_of (join_lines (h1 # h2 # pre @ [line'])) = h1 # h2 # pre @ [line']"
    using assms by (intro lines_of_join_lines) auto
  have pre: "lines_of (join_lines (h1 # h2 # pre)) = h1 # h2 # pre"
    using assms(1) by (intro lines_of_join_lines) auto
  have skip: "skipped_line line \<Longrightarrow> loop_body line acc = acc" for acc
    by (simp add: loop_body_counted counted_line_def)
  have last: "parseProcNetDev (join_lines (h1 # h2 # pre @ [line']))
      = loop_body line' (parseProcNetDev (join_lines (h1 # h2 # pre)))"
    unfolding parseProcNetDev_def with_line' pre by (simp add: parse_loop_append)
  show ?thesis
  proof (intro conjI impI)
    assume "skipped_line line"
    then show "parseProcNetDev (join_lines (h1 # h2 # pre @ line # post))
        = parseProcNetDev (join_lines (h1 # h2 # pre @ post))"
      unfolding parseProcNetDev_def with_line without by (simp add: parse_loop_append skip)
  next
    assume "counted_line line' \<and> to_number (fields_of line' ! 0) = NaN"
    then show "rxBytes (parseProcNetDev (join_lines (h1 # h2 # pre @ [line'])))
        = rxBytes (parseProcNetDev (join_lines (h1 # h2 # pre)))"
      unfolding last by (simp add: loop_body_counted num_or_zero_NaN js_add_zero parse_double_val)
  next
    assume "counted_line line' \<and> to_number (fields_of line' ! 8) = NaN"
    then show "txBytes (parseProcNetDev (join_lines (h1 # h2 # pre @ [line'])))
        = txBytes (parseProcNetDev (join_lines (h1 # h2 # pre)))"
      unfolding last by (simp add: loop_body_counted num_or_zero_NaN js_add_zero parse_double_val)
  qed
qed

lemma skipped_line_short: "skipped_line (str ''  eth1: 1 2 3'')"
  by (simp add: skipped_line_def fields_of_def field_text_def trim_def is_ws_def str_def)

lemma skipped_line_no_colon: "skipped_line (str ''  eth1 1 2 3 4 5 6 7 8 9'')"
  by (simp add: skipped_line_def trim_def is_ws_def str_def)

lemma fields_of_wlan0:
  "fields_of (str '' wlan0: n/a 4 0 0 0 0 0 0 -'') =
     [str ''n/a'', str ''4'', str ''0'', str ''0'', str ''0'', str ''0'', str ''0'', str ''0'',
      str ''-'']"
  by (simp add: fields_of_def field_text_def trim_def is_ws_def str_def)

lemma counted_line_wlan0: "counted_line (str '' wlan0: n/a 4 0 0 0 0 0 0 -'')"
  by (simp add: counted_line_def skipped_line_def fields_of_wlan0)
    (simp add: iface_name_def excluded_name_def trim_def is_ws_def str_def)

lemma to_number_n_a: "to_number (str ''n/a'') = NaN"
  by (simp add: number_defs)

lemma to_number_dash: "to_number (str ''-'') = NaN"
  by (simp add: number_defs)

theorem malformed_lines_have_no_effect_witness:
  "skipped_line (str ''  eth1: 1 2 3'')
   \<and> parseProcNetDev (join_lines [str ''Inter-| Receive'', str '' face |bytes'',
        str ''  eth0: 3000 9 0 0 0 0 0 0 500'', str ''  eth1: 1 2 3'',
        str ''    lo: 77 0 0 0 0 0 0 0 77''])
     = parseProcNetDev (join_lines [str ''Inter-| Receive'', str '' face |bytes'',
        str ''  eth0: 3000 9 0 0 0 0 0 0 500'', str ''    lo: 77 0 0 0 0 0 0 0 77''])
   \<and> counted_line (str '' wlan0: n/a 4 0 0 0 0 0 0 -'')
   \<and> to_number (fields_of (str '' wlan0: n/a 4 0 0 0 0 0 0 -'') ! 0) = NaN
   \<and> to_number (fields_of (str '' wlan0: n/a 4 0 0 0 0 0 0 -'') ! 8) = NaN
   \<and> rxBytes (parseProcNetDev (join_lines [str ''Inter-| Receive'', str '' face |bytes'',
        str ''  eth0: 3000 9 0 0 0 0 0 0 500'', str '' wlan0: n/a 4 0 0 0 0 0 0 -'']))
     = rxBytes (parseProcNetDev (join_lines [str ''Inter-| Receive'', str '' face |bytes'',
        str ''  eth0: 3000 9 0 0 0 0 0 0 500'']))
   \<and> txBytes (parseProcNetDev (join_lines [str ''Inter-| Receive'', str '' face |bytes'',
        str ''  eth0: 3000 9 0 0 0 0 0 0 500'', str '' wlan0: n/a 4 0 0 0 0 0 0 -'']))
     = txBytes (parseProcNetDev (join_lines [str ''Inter-| Receive'', str '' face |bytes'',
        str ''  eth0: 3000 9 0 0 0 0 0 0 500'']))"
proof -
  have nl: "\<forall>l \<in> set (str ''Inter-| Receive'' # str '' face |bytes''
        # [str ''  eth0: 3000 9 0 0 0 0 0 0 500''] @ str ''  eth1: 1 2 3''
        # [str ''    lo: 77 0 0 0 0 0 0 0 77'']). ch CHR 0x0A \<notin> set l"
    by (simp add: str_def)
  have nl': "ch CHR 0x0A \<notin> set (str '' wlan0: n/a 4 0 0 0 0 0 0 -'')"
    by (simp add: str_def)
  show ?thesis
    using malformed_lines_have_no_effect [OF nl nl']
    by (simp add: skipped_line_short counted_line_wlan0 fields_of_wlan0 to_number_n_a
        to_number_dash)
qed

subsection \<open>Numeric fields\<close>

lemma dropWhile_none: "\<forall>x \<in> set xs. \<not> P x \<Longrightarrow> dropWhile P xs = xs"
  by (cases xs) auto

lemma takeWhile_all: "\<forall>x \<in> set xs. P x \<Longrightarrow> takeWhile P xs = xs"
  by (induction xs) auto


lemma trim_no_ws: "\<forall>c \<in> set s. \<not> is_ws c \<Longrightarrow> trim s = s"
  by (simp add: trim_def dropWhile_none)


lemma is_digit_not_ws: "is_digit c \<Longrightarrow> \<not> is_ws c"
  by (auto simp: is_digit_def is_ws_def)

lemma non_decimal_digits: "list_all is_digit f \<Longrightarrow> non_decimal f = None"
  by (auto simp: non_decimal_def is_digit_def split: list.splits)

lemma to_number_digit_string:
  assumes "digit_string f"
  shows "to_number f = to_double (of_nat (digits_val f))"
proof -
  from assms have ne: "f \<noteq> []" and all: "list_all is_digit f"
    by (simp_all add: digit_string_def)
  from all have all': "\<forall>c \<in> set f. is_digit c" by (simp add: list_all_iff)
  then have t: "trim f = f" by (intro trim_no_ws) (auto dest: is_digit_not_ws)
  from ne all' have hd: "is_digit (hd f)" by (cases f) auto
  then have sign: "hd f \<noteq> ch CHR ''+''" "hd f \<noteq> ch CHR ''-''"
    by (auto simp: is_digit_def)
  from hd ne have inf: "f \<noteq> str ''Infinity''"
    by (cases f) (auto simp: str_def is_digit_def)
  from all' have tw: "takeWhile is_digit f = f" and dw: "dropWhile is_digit f = []"
    by (simp_all add: takeWhile_all)
  have dv: "digits_val [] = 0" by (simp add: digits_val_def)
  have u: "unsigned_decimal f = to_double (of_nat (digits_val f))"
    using ne inf by (simp add: unsigned_decimal_def tw dw dv exponent_part_def pow10_def)
  show ?thesis
    using ne sign by (simp add: to_number_def t non_decimal_digits [OF all] u)
qed

lemma num_or_zero_digit_string:
  assumes "digit_string f"
  shows "nonneg_integer_or_infinity (num_or_zero f)"
proof -
  from to_double_of_nat [of "digits_val f"]
  have "nonneg_integer_or_infinity (to_number f)"
    unfolding to_number_digit_string [OF assms] by auto
  then show ?thesis by (simp add: num_or_zero_def)
qed

lemma nonneg_integer_of_nat:
  assumes "nonneg_integer_or_infinity (Fin a)"
  shows "a = of_nat (nat \<lfloor>a\<rfloor>)"
proof -
  from assms have a: "0 \<le> a" "of_int \<lfloor>a\<rfloor> = a"
    by (simp_all only: nonneg_integer_or_infinity.simps)
  from a(1) have "0 \<le> \<lfloor>a\<rfloor>" by simp
  then have "(of_nat (nat \<lfloor>a\<rfloor>) :: rat) = of_int \<lfloor>a\<rfloor>" by simp
  with a(2) show ?thesis by (simp only:)
qed

lemma nonneg_integer_or_infinity_add:
  assumes "nonneg_integer_or_infinity x" and "nonneg_integer_or_infinity y"
  shows "nonneg_integer_or_infinity (js_add x y)"
proof (cases x; cases y)
  fix a b assume xy: "x = Fin a" "y = Fin b"
  with assms have "a = of_nat (nat \<lfloor>a\<rfloor>)" "b = of_nat (nat \<lfloor>b\<rfloor>)"
    by (auto intro: nonneg_integer_of_nat)
  then have ab: "a + b = of_nat (nat \<lfloor>a\<rfloor> + nat \<lfloor>b\<rfloor>)"
    by (simp only: of_nat_add)
  from to_double_of_nat [of "nat \<lfloor>a\<rfloor> + nat \<lfloor>b\<rfloor>"]
  have "nonneg_integer_or_infinity (to_double (a + b))"
    unfolding ab by auto
  with xy show ?thesis by simp
qed (use assms in auto)

lemma nonneg_integer_or_infinity_foldl:
  "nonneg_integer_or_infinity acc \<Longrightarrow> \<forall>v \<in> set vs. nonneg_integer_or_infinity v \<Longrightarrow>
   nonneg_integer_or_infinity (foldl js_add acc vs)"
  by (induction vs arbitrary: acc) (auto simp: nonneg_integer_or_infinity_add)

lemma counted_lines_sample_text:
  "counted_lines sample_text = [str ''  eth0: 3000 9 0 0 0 0 0 0 500'']"
  by (simp add: counted_lines_def lines_of_sample_text counted_line_blank counted_line_lo
      counted_line_eth0)

lemma lines_of_negative_text:
  "lines_of negative_text =
     [str ''Inter-| Receive'', str '' face |bytes'', str ''  eth0: -5 0 0 0 0 0 0 0 0'']"
  by (simp add: lines_of_def negative_text_def str_def)

lemma fields_of_negative:
  "fields_of (str ''  eth0: -5 0 0 0 0 0 0 0 0'') =
     [str ''-5'', str ''0'', str ''0'', str ''0'', str ''0'', str ''0'', str ''0'', str ''0'',
      str ''0'']"
  by (simp add: fields_of_def field_text_def trim_def is_ws_def str_def)

lemma counted_line_negative: "counted_line (str ''  eth0: -5 0 0 0 0 0 0 0 0'')"
  by (simp add: counted_line_def skipped_line_def fields_of_negative)
    (simp add: iface_name_def excluded_name_def trim_def is_ws_def str_def)

lemma num_or_zero_minus_5: "num_or_zero (str ''-5'') = Fin (- 5)"
  by (simp add: number_defs)

lemma num_or_zero_0: "num_or_zero (str ''0'') = Fin 0"
  by (simp add: number_defs)

text \<open>
  C8, as stated, fails on a field with a minus sign: \<^verbatim>\<open>Number('-5')\<close> is \<open>-5\<close>, which is
  truthy and is added as it is.
\<close>

theorem negative_field_counterexample:
  "parseProcNetDev negative_text = \<lparr>rxBytes = Fin (- 5), txBytes = Fin 0\<rparr>
   \<and> \<not> nonneg_integer (rxBytes (parseProcNetDev negative_text))"
proof -
  have "parseProcNetDev negative_text = \<lparr>rxBytes = Fin (- 5), txBytes = Fin 0\<rparr>"
    by (simp add: parseProcNetDev_def lines_of_negative_text loop_body_counted
        counted_line_negative fields_of_negative num_or_zero_minus_5 num_or_zero_0)
  then show ?thesis by simp
qed

subsection \<open>Fields of many digits\<close>

lemma digit_string_2_1023: "digit_string digits_2_1023"
  by (simp add: digit_string_def digits_2_1023_def is_digit_def str_def)

lemma digit_string_10_309: "digit_string digits_10_309"
  by (simp add: digit_string_def digits_10_309_def is_digit_def str_def)

lemma digits_val_2_1023: "digits_val digits_2_1023 = 2 ^ 1023"
  by (simp add: digits_val_def digits_2_1023_def str_def)

lemma digits_val_10_309: "digits_val digits_10_309 = 10 ^ 309"
  by (simp add: digits_val_def digits_10_309_def str_def)

lemma to_double_2_1023: "to_double (2 ^ 1023) = Fin (2 ^ 1023)"
proof -
  have "is_double (2 ^ 1023)" by (rule pow2_is_double) (simp add: max_exp_def)
  then show ?thesis by (simp only: is_double_def)
qed

lemma to_double_2_1024: "to_double (2 ^ 1024) = PInf"
  by (rule to_double_overflow) (simp add: max_exp_def)

lemma to_double_10_309: "to_double (10 ^ 309) = PInf"
  by (rule to_double_overflow) (simp add: max_exp_def)

lemma num_or_zero_2_1023: "num_or_zero digits_2_1023 = Fin (2 ^ 1023)"
proof -
  have "to_number digits_2_1023 = to_double (of_nat (2 ^ 1023))"
    by (simp only: to_number_digit_string [OF digit_string_2_1023] digits_val_2_1023)
  also have "(of_nat (2 ^ 1023) :: rat) = 2 ^ 1023" by (simp only: of_nat_power of_nat_numeral)
  finally have "to_number digits_2_1023 = Fin (2 ^ 1023)" by (simp only: to_double_2_1023)
  then show ?thesis by (simp add: num_or_zero_def)
qed

lemma num_or_zero_10_309: "num_or_zero digits_10_309 = PInf"
proof -
  have "to_number digits_10_309 = to_double (of_nat (10 ^ 309))"
    by (simp only: to_number_digit_string [OF digit_string_10_309] digits_val_10_309)
  also have "(of_nat (10 ^ 309) :: rat) = 10 ^ 309" by (simp only: of_nat_power of_nat_numeral)
  finally have "to_number digits_10_309 = PInf" by (simp only: to_double_10_309)
  then show ?thesis by (simp add: num_or_zero_def)
qed

lemma lines_of_huge_text:
  "lines_of huge_text =
     [str ''Inter-| Receive'', str '' face |bytes'',
      str ''  eth0: '' @ digits_2_1023 @ str '' 0 0 0 0 0 0 0 0'', []]"
  by (simp add: lines_of_def huge_text_def digits_2_1023_def str_def)

lemma lines_of_long_field_text:
  "lines_of long_field_text =
     [str ''Inter-| Receive'', str '' face |bytes'',
      str ''  eth0: '' @ digits_10_309 @ str '' 0 0 0 0 0 0 0 7'', []]"
  by (simp add: lines_of_def long_field_text_def digits_10_309_def str_def)

lemma fields_of_huge:
  "fields_of (str ''  eth0: '' @ digits_2_1023 @ str '' 0 0 0 0 0 0 0 0'') =
     [digits_2_1023, str ''0'', str ''0'', str ''0'', str ''0'', str ''0'', str ''0'', str ''0'',
      str ''0'']"
  by (simp add: fields_of_def field_text_def trim_def is_ws_def digits_2_1023_def str_def)

lemma fields_of_long_field:
  "fields_of (str ''  eth0: '' @ digits_10_309 @ str '' 0 0 0 0 0 0 0 7'') =
     [digits_10_309, str ''0'', str ''0'', str ''0'', str ''0'', str ''0'', str ''0'', str ''0'',
      str ''7'']"
  by (simp add: fields_of_def field_text_def trim_def is_ws_def digits_10_309_def str_def)

lemma counted_line_huge:
  "counted_line (str ''  eth0: '' @ digits_2_1023 @ str '' 0 0 0 0 0 0 0 0'')"
  by (simp add: counted_line_def skipped_line_def fields_of_huge)
    (simp add: iface_name_def excluded_name_def trim_def is_ws_def digits_2_1023_def str_def)

lemma counted_line_long_field:
  "counted_line (str ''  eth0: '' @ digits_10_309 @ str '' 0 0 0 0 0 0 0 7'')"
  by (simp add: counted_line_def skipped_line_def fields_of_long_field)
    (simp add: iface_name_def excluded_name_def trim_def is_ws_def digits_10_309_def str_def)

lemma num_or_zero_7: "num_or_zero (str ''7'') = Fin 7"
  by (simp add: number_defs)

lemma parse_huge_text:
  "parseProcNetDev huge_text = \<lparr>rxBytes = Fin (2 ^ 1023), txBytes = Fin 0\<rparr>"
proof -
  have "js_add (Fin 0) (Fin (2 ^ 1023)) = Fin (2 ^ 1023)"
    using to_double_2_1023 by simp
  then show ?thesis
    by (simp add: parseProcNetDev_def lines_of_huge_text loop_body_counted counted_line_blank
        counted_line_huge fields_of_huge num_or_zero_2_1023 num_or_zero_0)
qed

lemma counted_lines_long_field_text:
  "counted_lines long_field_text = [str ''  eth0: '' @ digits_10_309 @ str '' 0 0 0 0 0 0 0 7'']"
  by (simp add: counted_lines_def lines_of_long_field_text counted_line_blank
      counted_line_long_field)

text \<open>
  C8, amended. When field 0 and field 8 of every summed line are strings of decimal
  digits, or not numeric at all, each total is \<open>+Infinity\<close> or an integer that is at
  least 0.
\<close>

theorem parser_output_integer_or_infinity:
  assumes "\<forall>l \<in> set (counted_lines content).
      (digit_string (fields_of l ! 0) \<or> to_number (fields_of l ! 0) = NaN)
      \<and> (digit_string (fields_of l ! 8) \<or> to_number (fields_of l ! 8) = NaN)"
  shows "nonneg_integer_or_infinity (rxBytes (parseProcNetDev content))
       \<and> nonneg_integer_or_infinity (txBytes (parseProcNetDev content))"
proof -
  have field: "nonneg_integer_or_infinity (num_or_zero f)"
    if "digit_string f \<or> to_number f = NaN" for f
    using that by (auto simp: num_or_zero_digit_string num_or_zero_NaN)
  have "nonneg_integer_or_infinity
      (js_sum (map (\<lambda>l. num_or_zero (fields_of l ! 0)) (counted_lines content)))"
    unfolding js_sum_def using assms
    by (intro nonneg_integer_or_infinity_foldl) (auto intro: field)
  moreover
  have "nonneg_integer_or_infinity
      (js_sum (map (\<lambda>l. num_or_zero (fields_of l ! 8)) (counted_lines content)))"
    unfolding js_sum_def using assms
    by (intro nonneg_integer_or_infinity_foldl) (auto intro: field)
  ultimately show ?thesis by (simp add: parse_as_sum)
qed

text \<open>
  The sample text has the integer totals 3000 and 500; the text with a field of 310 digits
  has the receive total \<open>+Infinity\<close> and the transmit total 7.
\<close>

theorem parser_output_integer_or_infinity_witness:
  "digit_string (fields_of (str ''  eth0: 3000 9 0 0 0 0 0 0 500'') ! 0)
   \<and> digit_string (fields_of (str ''  eth0: 3000 9 0 0 0 0 0 0 500'') ! 8)
   \<and> nonneg_integer_or_infinity (rxBytes (parseProcNetDev sample_text))
   \<and> nonneg_integer_or_infinity (txBytes (parseProcNetDev sample_text))
   \<and> parseProcNetDev sample_text = \<lparr>rxBytes = Fin 3000, txBytes = Fin 500\<rparr>
   \<and> digit_string digits_10_309
   \<and> nonneg_integer_or_infinity (rxBytes (parseProcNetDev long_field_text))
   \<and> nonneg_integer_or_infinity (txBytes (parseProcNetDev long_field_text))
   \<and> parseProcNetDev long_field_text = \<lparr>rxBytes = PInf, txBytes = Fin 7\<rparr>"
proof -
  have d: "digit_string (str ''3000'')" "digit_string (str ''500'')" "digit_string (str ''7'')"
    by (simp_all add: digit_string_def is_digit_def str_def)
  then have "\<forall>l \<in> set (counted_lines sample_text).
      (digit_string (fields_of l ! 0) \<or> to_number (fields_of l ! 0) = NaN)
      \<and> (digit_string (fields_of l ! 8) \<or> to_number (fields_of l ! 8) = NaN)"
    by (simp add: counted_lines_sample_text fields_of_eth0)
  note 1 = parser_output_integer_or_infinity [OF this]
  from d digit_string_10_309 have "\<forall>l \<in> set (counted_lines long_field_text).
      (digit_string (fields_of l ! 0) \<or> to_number (fields_of l ! 0) = NaN)
      \<and> (digit_string (fields_of l ! 8) \<or> to_number (fields_of l ! 8) = NaN)"
    by (simp add: counted_lines_long_field_text fields_of_long_field)
  note 2 = parser_output_integer_or_infinity [OF this]
  have "parseProcNetDev long_field_text = \<lparr>rxBytes = PInf, txBytes = Fin 7\<rparr>"
    by (simp add: parseProcNetDev_def lines_of_long_field_text loop_body_counted
        counted_line_blank counted_line_long_field fields_of_long_field num_or_zero_10_309
        num_or_zero_7)
  with 1 2 d digit_string_10_309 show ?thesis
    by (simp add: fields_of_eth0 parse_sample_text)
qed


subsection \<open>Matching is case-sensitive\<close>

lemma to_lower_patterns:
  "map to_lower (str ''lo'') = str ''lo''" "map to_lower (str ''br-'') = str ''br-''"
  "map to_lower (str ''docker'') = str ''docker''"
  "map to_lower (str ''services'') = str ''services''"
  "map to_lower (str ''veth'') = str ''veth''"
  by (simp_all add: str_def to_lower_def)

lemma regex_test_lower:
  assumes "q \<in> set NETWORK_INTERFACE_EXCLUDES" and "regex_test q name"
  shows "regex_test q (map to_lower name)"
proof -
  have pre: "prefix (map to_lower x) (map to_lower name)" if "prefix x name" for x
    using that by (rule map_mono_prefix)
  from assms show ?thesis
    using pre [of "str ''br-''"] pre [of "str ''docker''"] pre [of "str ''services''"]
      pre [of "str ''veth''"]
    by (auto simp: NETWORK_INTERFACE_EXCLUDES_def to_lower_patterns)
qed

lemma prefix_Cons_hd: "prefix (x # xs) s \<Longrightarrow> hd s = x"
  by (cases s) auto

lemma excludes_disjoint:
  assumes "q \<in> set NETWORK_INTERFACE_EXCLUDES" and "q' \<in> set NETWORK_INTERFACE_EXCLUDES"
    and "regex_test q s" and "regex_test q' s"
  shows "q = q'"
  using assms by (auto simp: NETWORK_INTERFACE_EXCLUDES_def str_def dest!: prefix_Cons_hd)

lemma case_variant_allowed:
  assumes "p \<in> set NETWORK_INTERFACE_EXCLUDES" and "regex_test_ignore_case p name"
    and "\<not> regex_test p name"
  shows "isAllowedInterface name"
proof (rule ccontr)
  assume "\<not> isAllowedInterface name"
  then obtain q where q: "q \<in> set NETWORK_INTERFACE_EXCLUDES" "regex_test q name"
    by (auto simp: isAllowedInterface_def list_ex_iff)
  then have "regex_test q (map to_lower name)" by (rule regex_test_lower)
  with assms(1,2) q(1) have "q = p"
    unfolding regex_test_ignore_case_def by (intro excludes_disjoint)
  with q(2) assms(3) show False by simp
qed

lemma lines_of_capitals_text:
  "lines_of capitals_text =
     [str ''Inter-| Receive'', str '' face |bytes'', str ''    LO: 1 0 0 0 0 0 0 0 2'',
      str '' Docker0: 10 0 0 0 0 0 0 0 20'', str '' VETH1: 100 0 0 0 0 0 0 0 200'']"
  by (simp add: lines_of_def capitals_text_def str_def)

lemma iface_name_capitals:
  "iface_name (str ''    LO: 1 0 0 0 0 0 0 0 2'') = str ''LO''"
  "iface_name (str '' Docker0: 10 0 0 0 0 0 0 0 20'') = str ''Docker0''"
  "iface_name (str '' VETH1: 100 0 0 0 0 0 0 0 200'') = str ''VETH1''"
  by (simp_all add: iface_name_def trim_def is_ws_def str_def)

lemma fields_of_capitals:
  "fields_of (str ''    LO: 1 0 0 0 0 0 0 0 2'') =
     [str ''1'', str ''0'', str ''0'', str ''0'', str ''0'', str ''0'', str ''0'', str ''0'',
      str ''2'']"
  "fields_of (str '' Docker0: 10 0 0 0 0 0 0 0 20'') =
     [str ''10'', str ''0'', str ''0'', str ''0'', str ''0'', str ''0'', str ''0'', str ''0'',
      str ''20'']"
  "fields_of (str '' VETH1: 100 0 0 0 0 0 0 0 200'') =
     [str ''100'', str ''0'', str ''0'', str ''0'', str ''0'', str ''0'', str ''0'', str ''0'',
      str ''200'']"
  by (simp_all add: fields_of_def field_text_def trim_def is_ws_def str_def)

lemma not_skipped_capitals:
  "\<not> skipped_line (str ''    LO: 1 0 0 0 0 0 0 0 2'')"
  "\<not> skipped_line (str '' Docker0: 10 0 0 0 0 0 0 0 20'')"
  "\<not> skipped_line (str '' VETH1: 100 0 0 0 0 0 0 0 200'')"
  by (simp_all add: skipped_line_def fields_of_capitals) (simp_all add: trim_def is_ws_def str_def)

lemma ignore_case_capitals:
  "regex_test_ignore_case (Whole (str ''lo'')) (iface_name (str ''    LO: 1 0 0 0 0 0 0 0 2''))"
  "regex_test_ignore_case (Starts (str ''docker''))
     (iface_name (str '' Docker0: 10 0 0 0 0 0 0 0 20''))"
  "regex_test_ignore_case (Starts (str ''veth''))
     (iface_name (str '' VETH1: 100 0 0 0 0 0 0 0 200''))"
  unfolding iface_name_capitals by (simp_all add: regex_test_ignore_case_def to_lower_def str_def)

lemma no_match_capitals:
  "\<not> regex_test (Whole (str ''lo'')) (iface_name (str ''    LO: 1 0 0 0 0 0 0 0 2''))"
  "\<not> regex_test (Starts (str ''docker'')) (iface_name (str '' Docker0: 10 0 0 0 0 0 0 0 20''))"
  "\<not> regex_test (Starts (str ''veth'')) (iface_name (str '' VETH1: 100 0 0 0 0 0 0 0 200''))"
  unfolding iface_name_capitals by (simp_all add: str_def)

lemma body_capitals:
  "str ''    LO: 1 0 0 0 0 0 0 0 2'' \<in> set (drop 2 (lines_of capitals_text))"
  "str '' Docker0: 10 0 0 0 0 0 0 0 20'' \<in> set (drop 2 (lines_of capitals_text))"
  "str '' VETH1: 100 0 0 0 0 0 0 0 200'' \<in> set (drop 2 (lines_of capitals_text))"
  by (simp_all add: lines_of_capitals_text)

lemma not_excluded_capitals:
  "\<not> excluded_name (str ''LO'')" "\<not> excluded_name (str ''Docker0'')"
  "\<not> excluded_name (str ''VETH1'')"
  by (simp_all add: excluded_name_def str_def)

lemma counted_lines_capitals_text:
  "counted_lines capitals_text =
     [str ''    LO: 1 0 0 0 0 0 0 0 2'', str '' Docker0: 10 0 0 0 0 0 0 0 20'',
      str '' VETH1: 100 0 0 0 0 0 0 0 200'']"
  by (simp add: counted_lines_def lines_of_capitals_text counted_line_def not_skipped_capitals
      iface_name_capitals not_excluded_capitals)

lemma num_or_zero_capitals:
  "num_or_zero (str ''2'') = Fin 2" "num_or_zero (str ''10'') = Fin 10"
  "num_or_zero (str ''20'') = Fin 20" "num_or_zero (str ''200'') = Fin 200"
  by (simp_all add: number_defs)

text \<open>
  C9. A line after the headers that is not skipped and whose interface name matches an
  exclusion pattern only when letter case is ignored is an allowed interface, and is one
  of the lines whose fields 0 and 8 the parser sums.
\<close>

theorem exclusion_is_case_sensitive:
  assumes "p \<in> set NETWORK_INTERFACE_EXCLUDES"
    and "regex_test_ignore_case p (iface_name line)"
    and "\<not> regex_test p (iface_name line)"
    and "line \<in> set (drop 2 (lines_of content))"
    and "\<not> skipped_line line"
  shows "isAllowedInterface (iface_name line)
       \<and> line \<in> set (counted_lines content)
       \<and> parseProcNetDev content =
           \<lparr>rxBytes = js_sum (map (\<lambda>l. num_or_zero (fields_of l ! 0)) (counted_lines content)),
            txBytes = js_sum (map (\<lambda>l. num_or_zero (fields_of l ! 8)) (counted_lines content))\<rparr>"
proof -
  from assms(1-3) have allowed: "isAllowedInterface (iface_name line)"
    by (rule case_variant_allowed)
  then have "counted_line line"
    using assms(5) by (simp add: counted_line_def isAllowedInterface_iff)
  with assms(4) have "line \<in> set (counted_lines content)"
    by (simp add: counted_lines_def)
  with allowed show ?thesis
    using parse_as_sum [of content] by simp
qed

theorem exclusion_is_case_sensitive_witness:
  "isAllowedInterface (str ''LO'') \<and> isAllowedInterface (str ''Docker0'')
   \<and> isAllowedInterface (str ''VETH1'')
   \<and> str ''    LO: 1 0 0 0 0 0 0 0 2'' \<in> set (counted_lines capitals_text)
   \<and> str '' Docker0: 10 0 0 0 0 0 0 0 20'' \<in> set (counted_lines capitals_text)
   \<and> str '' VETH1: 100 0 0 0 0 0 0 0 200'' \<in> set (counted_lines capitals_text)
   \<and> parseProcNetDev capitals_text = \<lparr>rxBytes = Fin 111, txBytes = Fin 222\<rparr>"
proof -
  have lo: "Whole (str ''lo'') \<in> set NETWORK_INTERFACE_EXCLUDES"
    and docker: "Starts (str ''docker'') \<in> set NETWORK_INTERFACE_EXCLUDES"
    and veth: "Starts (str ''veth'') \<in> set NETWORK_INTERFACE_EXCLUDES"
    by (simp_all add: NETWORK_INTERFACE_EXCLUDES_def)
  note a =
    exclusion_is_case_sensitive [OF lo ignore_case_capitals(1) no_match_capitals(1)
      body_capitals(1) not_skipped_capitals(1)]
    exclusion_is_case_sensitive [OF docker ignore_case_capitals(2) no_match_capitals(2)
      body_capitals(2) not_skipped_capitals(2)]
    exclusion_is_case_sensitive [OF veth ignore_case_capitals(3) no_match_capitals(3)
      body_capitals(3) not_skipped_capitals(3)]
  from a show ?thesis
    unfolding iface_name_capitals counted_lines_capitals_text
    by (simp add: js_sum_def fields_of_capitals num_or_zero_1 num_or_zero_100
        num_or_zero_capitals)
qed

subsection \<open>A numeric field has no colon\<close>



















subsection \<open>The sampler, case by case\<close>

lemma clamp_rate_nonneg_finite: "nonneg_finite (clamp_rate r)"
  by (cases r) (auto simp: clamp_rate_def)

lemma clamp_rate_cases: "clamp_rate r = (if nonneg_finite r then r else Fin 0)"
  by (cases r) (auto simp: clamp_rate_def)

lemma getNetworkRates_failure:
  "getNetworkRates (Inl e) now st = (\<lparr>rxPerSec = Fin 0, txPerSec = Fin 0\<rparr>, st)"
  by (simp add: getNetworkRates_def try_block_def)

lemma getNetworkRates_first:
  "getNetworkRates (Inr content) now None =
     (\<lparr>rxPerSec = Fin 0, txPerSec = Fin 0\<rparr>,
      Some \<lparr>rxBytes = rxBytes (parseProcNetDev content),
            txBytes = txBytes (parseProcNetDev content), ts = now\<rparr>)"
  by (simp add: getNetworkRates_def try_block_def Let_def)

lemma getNetworkRates_stored:
  "snd (getNetworkRates (Inr content) now st) =
     Some \<lparr>rxBytes = rxBytes (parseProcNetDev content),
           txBytes = txBytes (parseProcNetDev content), ts = now\<rparr>"
  by (simp add: getNetworkRates_def try_block_def Let_def)

lemma getNetworkRates_later:
  assumes "ts prev < now"
  shows "fst (getNetworkRates (Inr content) now (Some prev)) =
     \<lparr>rxPerSec = clamp_rate (js_div (js_sub (rxBytes (parseProcNetDev content)) (rxBytes prev))
                    (deltaSeconds now (ts prev))),
      txPerSec = clamp_rate (js_div (js_sub (txBytes (parseProcNetDev content)) (txBytes prev))
                    (deltaSeconds now (ts prev)))\<rparr>"
proof -
  from deltaSeconds_pos [OF assms] have "js_gt (deltaSeconds now (ts prev)) (Fin 0)"
    by (auto simp: js_gt_def)
  then show ?thesis by (simp add: getNetworkRates_def try_block_def Let_def)
qed

lemma getNetworkRates_stalled:
  assumes "now \<le> ts prev"
  shows "fst (getNetworkRates (Inr content) now (Some prev))
     = \<lparr>rxPerSec = Fin 0, txPerSec = Fin 0\<rparr>"
proof -
  from deltaSeconds_nonpos [OF assms] have "\<not> js_gt (deltaSeconds now (ts prev)) (Fin 0)"
    by (auto simp: js_gt_def)
  then show ?thesis by (simp add: getNetworkRates_def try_block_def Let_def)
qed

lemma rates_nonneg_finite:
  "nonneg_finite (rxPerSec (fst (getNetworkRates readFile now st))) \<and>
   nonneg_finite (txPerSec (fst (getNetworkRates readFile now st)))"
proof (cases readFile)
  case (Inl e)
  then show ?thesis by (simp add: getNetworkRates_failure)
next
  case (Inr content)
  show ?thesis
  proof (cases st)
    case None
    with Inr show ?thesis by (simp add: getNetworkRates_first)
  next
    case (Some prev)
    show ?thesis
    proof (cases "ts prev < now")
      case True
      with Inr Some show ?thesis
        by (simp add: getNetworkRates_later clamp_rate_nonneg_finite)
    next
      case False
      with Inr Some show ?thesis
        by (simp add: getNetworkRates_stalled)
    qed
  qed
qed

lemma lines_of_zero_text:
  "lines_of zero_text =
     [str ''Inter-| Receive'', str '' face |bytes'', str ''  eth0: 0 0 0 0 0 0 0 0 0'', []]"
  by (simp add: lines_of_def zero_text_def str_def)

lemma fields_of_zero:
  "fields_of (str ''  eth0: 0 0 0 0 0 0 0 0 0'') =
     [str ''0'', str ''0'', str ''0'', str ''0'', str ''0'', str ''0'', str ''0'', str ''0'',
      str ''0'']"
  by (simp add: fields_of_def field_text_def trim_def is_ws_def str_def)

lemma counted_line_zero: "counted_line (str ''  eth0: 0 0 0 0 0 0 0 0 0'')"
  by (simp add: counted_line_def skipped_line_def fields_of_zero)
    (simp add: iface_name_def excluded_name_def trim_def is_ws_def str_def)

lemma parse_zero_text: "parseProcNetDev zero_text = \<lparr>rxBytes = Fin 0, txBytes = Fin 0\<rparr>"
  by (simp add: parseProcNetDev_def lines_of_zero_text loop_body_counted counted_line_blank
      counted_line_zero fields_of_zero num_or_zero_0)

lemma is_double_half: "is_double (1 / 2)"
proof -
  have m: "(2::rat) ^ min_exp = 2 * 2 ^ (min_exp - 1)"
    by (simp add: min_exp_def flip: power_Suc)
  have "(1::rat) / 2 < 2 ^ max_exp"
    by (rule less_le_trans [of _ 1]) simp_all
  then have "of_nat 1 * 2 ^ (min_exp - 1) / 2 ^ min_exp < (2::rat) ^ max_exp"
    by (simp add: m)
  from is_double_dyadic [OF _ this] show ?thesis by (simp add: m)
qed

lemma deltaSeconds_500: "deltaSeconds 500 0 = Fin (1 / 2)"
  using is_double_half by (simp add: deltaSeconds_def js_sub_def is_double_def)

lemma deltaSeconds_2000: "deltaSeconds 2000 0 = Fin 2"
  by (simp add: deltaSeconds_def js_sub_def)

lemma clamp_rate_nonneg_quotient:
  assumes "x = PInf \<or> (\<exists>B. x = Fin B \<and> 0 \<le> B)"
    and "delta = PInf \<or> (\<exists>d. delta = Fin d \<and> 0 < d)"
  shows "clamp_rate (js_div x delta) = finite_or_zero (js_div x delta)"
proof -
  have "\<not> js_lt (js_div x delta) (Fin 0)"
  proof -
    consider "x = PInf" | B d where "x = Fin B" "0 \<le> B" "delta = Fin d" "0 < d"
      | B where "x = Fin B" "delta = PInf"
      using assms by auto
    then show ?thesis
    proof cases
      case 1
      with assms(2) show ?thesis by auto
    next
      case 2
      then have "0 \<le> B / d" by simp
      from to_double_nonneg [OF this] 2 show ?thesis by auto
    next
      case 3
      then show ?thesis by simp
    qed
  qed
  then show ?thesis by (simp add: clamp_rate_def finite_or_zero_def)
qed

lemma counter_difference:
  assumes "a \<le> b"
  shows "js_sub (Fin b) (Fin a) = PInf \<or> (\<exists>B. js_sub (Fin b) (Fin a) = Fin B \<and> 0 \<le> B)"
proof -
  from assms have "0 \<le> b + - a" by simp
  from to_double_nonneg [OF this] show ?thesis by (simp add: js_sub_def)
qed

lemma second_call:
  assumes "t1 < t2"
  shows "fst (getNetworkRates (Inr c2) t2 (snd (getNetworkRates (Inr c1) t1 st))) =
     \<lparr>rxPerSec = clamp_rate (js_div (js_sub (rxBytes (parseProcNetDev c2))
                    (rxBytes (parseProcNetDev c1))) (deltaSeconds t2 t1)),
      txPerSec = clamp_rate (js_div (js_sub (txBytes (parseProcNetDev c2))
                    (txBytes (parseProcNetDev c1))) (deltaSeconds t2 t1))\<rparr>"
  using assms by (simp add: getNetworkRates_stored getNetworkRates_later)

lemma exact_rate:
  assumes "0 \<le> B" and "is_double B" and "delta = Fin d" and "0 < d" and "is_double (B / d)"
  shows "clamp_rate (js_div (js_sub (Fin (a + B)) (Fin a)) delta) = Fin (B / d)"
proof -
  have "js_sub (Fin (a + B)) (Fin a) = Fin B"
    using assms(2) by (simp add: js_sub_def is_double_def)
  moreover from assms(1,4) have "0 \<le> B / d" by simp
  then have "\<not> B / d < 0" by (simp only: not_less)
  ultimately show ?thesis
    using assms(3-5) by (simp add: clamp_rate_def is_double_def)
qed

subsection \<open>Claims about the sampler\<close>

text \<open>
  C1, as stated, fails when the quotient overflows: after a first call that read the
  receive counter 0 at 0 ms, a call that reads \<open>2 ^ 1023\<close> at 500 ms computes
  \<open>2 ^ 1023 / 0.5\<close>, which is \<open>Infinity\<close> in double arithmetic, and returns 0.
\<close>

theorem overflowing_rate_counterexample:
  "rxBytes (parseProcNetDev zero_text) = Fin 0
   \<and> rxBytes (parseProcNetDev huge_text) = Fin (2 ^ 1023)
   \<and> deltaSeconds 500 0 = Fin (1 / 2)
   \<and> rxPerSec (fst (getNetworkRates (Inr huge_text) 500
        (snd (getNetworkRates (Inr zero_text) 0 None)))) = Fin 0
   \<and> Fin (2 ^ 1023 / (1 / 2)) \<noteq> Fin 0"
proof -
  have "js_sub (Fin (2 ^ 1023)) (Fin 0) = Fin (2 ^ 1023)"
    using to_double_2_1023 by (simp add: js_sub_def)
  moreover have "js_div (Fin (2 ^ 1023)) (Fin (1 / 2)) = PInf"
    using to_double_2_1024 by simp
  ultimately have "clamp_rate (js_div (js_sub (Fin (2 ^ 1023)) (Fin 0)) (Fin (1 / 2))) = Fin 0"
    by (simp only: clamp_rate_def isFinite.simps) simp
  then have "rxPerSec (fst (getNetworkRates (Inr huge_text) 500
        (snd (getNetworkRates (Inr zero_text) 0 None)))) = Fin 0"
    by (simp only: second_call [of 0 500] parse_huge_text parse_zero_text deltaSeconds_500
        rates.simps counters.simps)
  then show ?thesis
    by (simp add: parse_zero_text parse_huge_text deltaSeconds_500)
qed

text \<open>
  C1, amended. For two consecutive successful calls at times \<open>t1 < t2\<close>, from any
  stored state, whose receive counters \<open>a \<le> b\<close> are finite, the second call returns
  the quotient of \<open>b - a\<close> by the elapsed seconds as double arithmetic computes it, or 0
  when that quotient is not finite. When the increase \<open>B\<close>, the elapsed seconds \<open>d\<close>
  and \<open>B / d\<close> are doubles, the returned rate is \<open>B / d\<close> exactly. The same holds for
  the transmit counters.
\<close>

theorem rate_of_counter_increase:
  assumes "t1 < t2"
  shows "(rxBytes (parseProcNetDev c1) = Fin a \<and> rxBytes (parseProcNetDev c2) = Fin b \<and> a \<le> b \<longrightarrow>
            rxPerSec (fst (getNetworkRates (Inr c2) t2 (snd (getNetworkRates (Inr c1) t1 st))))
              = finite_or_zero (js_div (js_sub (Fin b) (Fin a)) (deltaSeconds t2 t1)))
       \<and> (txBytes (parseProcNetDev c1) = Fin a' \<and> txBytes (parseProcNetDev c2) = Fin b' \<and> a' \<le> b' \<longrightarrow>
            txPerSec (fst (getNetworkRates (Inr c2) t2 (snd (getNetworkRates (Inr c1) t1 st))))
              = finite_or_zero (js_div (js_sub (Fin b') (Fin a')) (deltaSeconds t2 t1)))
       \<and> (rxBytes (parseProcNetDev c1) = Fin a \<and> rxBytes (parseProcNetDev c2) = Fin (a + B)
            \<and> 0 \<le> B \<and> is_double B \<and> deltaSeconds t2 t1 = Fin d \<and> is_double (B / d) \<longrightarrow>
            rxPerSec (fst (getNetworkRates (Inr c2) t2 (snd (getNetworkRates (Inr c1) t1 st))))
              = Fin (B / d))
       \<and> (txBytes (parseProcNetDev c1) = Fin a' \<and> txBytes (parseProcNetDev c2) = Fin (a' + D)
            \<and> 0 \<le> D \<and> is_double D \<and> deltaSeconds t2 t1 = Fin d \<and> is_double (D / d) \<longrightarrow>
            txPerSec (fst (getNetworkRates (Inr c2) t2 (snd (getNetworkRates (Inr c1) t1 st))))
              = Fin (D / d))"
proof -
  note delta = deltaSeconds_pos [OF assms]
  have pos: "0 < d" if "deltaSeconds t2 t1 = Fin d" using that delta by auto
  show ?thesis
  proof (intro conjI impI; elim conjE)
    assume "rxBytes (parseProcNetDev c1) = Fin a" "rxBytes (parseProcNetDev c2) = Fin b" "a \<le> b"
    then show "rxPerSec (fst (getNetworkRates (Inr c2) t2 (snd (getNetworkRates (Inr c1) t1 st))))
        = finite_or_zero (js_div (js_sub (Fin b) (Fin a)) (deltaSeconds t2 t1))"
      using clamp_rate_nonneg_quotient [OF counter_difference delta]
      by (simp add: second_call [OF assms])
  next
    assume "txBytes (parseProcNetDev c1) = Fin a'" "txBytes (parseProcNetDev c2) = Fin b'"
      "a' \<le> b'"
    then show "txPerSec (fst (getNetworkRates (Inr c2) t2 (snd (getNetworkRates (Inr c1) t1 st))))
        = finite_or_zero (js_div (js_sub (Fin b') (Fin a')) (deltaSeconds t2 t1))"
      using clamp_rate_nonneg_quotient [OF counter_difference delta]
      by (simp add: second_call [OF assms])
  next
    assume "rxBytes (parseProcNetDev c1) = Fin a" "rxBytes (parseProcNetDev c2) = Fin (a + B)"
      "0 \<le> B" "is_double B" "deltaSeconds t2 t1 = Fin d" "is_double (B / d)"
    then show "rxPerSec (fst (getNetworkRates (Inr c2) t2 (snd (getNetworkRates (Inr c1) t1 st))))
        = Fin (B / d)"
      using exact_rate [of B "deltaSeconds t2 t1" d a] pos
      by (simp add: second_call [OF assms])
  next
    assume "txBytes (parseProcNetDev c1) = Fin a'" "txBytes (parseProcNetDev c2) = Fin (a' + D)"
      "0 \<le> D" "is_double D" "deltaSeconds t2 t1 = Fin d" "is_double (D / d)"
    then show "txPerSec (fst (getNetworkRates (Inr c2) t2 (snd (getNetworkRates (Inr c1) t1 st))))
        = Fin (D / d)"
      using exact_rate [of D "deltaSeconds t2 t1" d a'] pos
      by (simp add: second_call [OF assms])
  qed
qed

text \<open>
  The example of the specification as two calls: the first reads 1000 and 500 bytes at
  0 ms and stores them, the second reads 3000 and 500 bytes at 2000 ms. The elapsed time is
  2 seconds, the rates are 1000 and 0.
\<close>

theorem rate_of_counter_increase_witness:
  "snd (getNetworkRates (Inr earlier_text) 0 None)
     = Some \<lparr>rxBytes = Fin 1000, txBytes = Fin 500, ts = 0\<rparr>
   \<and> parseProcNetDev sample_text = \<lparr>rxBytes = Fin 3000, txBytes = Fin 500\<rparr>
   \<and> deltaSeconds 2000 0 = Fin 2
   \<and> is_double 2000 \<and> is_double (2000 / 2) \<and> is_double 0 \<and> is_double (0 / 2)
   \<and> finite_or_zero (js_div (js_sub (Fin 3000) (Fin 1000)) (deltaSeconds 2000 0)) = Fin 1000
   \<and> rxPerSec (fst (getNetworkRates (Inr sample_text) 2000
        (snd (getNetworkRates (Inr earlier_text) 0 None)))) = Fin 1000
   \<and> txPerSec (fst (getNetworkRates (Inr sample_text) 2000
        (snd (getNetworkRates (Inr earlier_text) 0 None)))) = Fin 0"
  using rate_of_counter_increase
    [where ?t1.0 = 0 and ?t2.0 = 2000 and ?c1.0 = earlier_text and ?c2.0 = sample_text
       and a = 1000 and b = 3000 and B = 2000 and a' = 500 and b' = 500 and D = 0 and d = 2
       and st = None]
  by (simp add: parse_sample_text parse_earlier_text getNetworkRates_first deltaSeconds_2000
      is_double_def js_sub_def finite_or_zero_def)



text \<open>
  C3. When the read fails, whatever the error and the stored state, the sampler returns
  zero rates and the stored state is the one before the call; a later call sees exactly
  what it would have seen without the failed one.
\<close>

theorem read_failure_absorbed:
  "getNetworkRates (Inl e) now st = (\<lparr>rxPerSec = Fin 0, txPerSec = Fin 0\<rparr>, st)
   \<and> getNetworkRates readFile now' (snd (getNetworkRates (Inl e) now st))
       = getNetworkRates readFile now' st"
  by (simp add: getNetworkRates_failure)

theorem read_failure_absorbed_witness:
  "getNetworkRates (Inl ENOENT) 1000 (Some \<lparr>rxBytes = Fin 1000, txBytes = Fin 500, ts = 0\<rparr>)
     = (\<lparr>rxPerSec = Fin 0, txPerSec = Fin 0\<rparr>,
        Some \<lparr>rxBytes = Fin 1000, txBytes = Fin 500, ts = 0\<rparr>)
   \<and> fst (getNetworkRates (Inr sample_text) 2000
        (snd (getNetworkRates (Inl ENOENT) 1000
           (Some \<lparr>rxBytes = Fin 1000, txBytes = Fin 500, ts = 0\<rparr>))))
     = \<lparr>rxPerSec = Fin 1000, txPerSec = Fin 0\<rparr>"
  using read_failure_absorbed
    [where e = ENOENT and now = 1000 and now' = 2000 and readFile = "Inr sample_text"
       and st = "Some \<lparr>rxBytes = Fin 1000, txBytes = Fin 500, ts = 0\<rparr>"]
  by (simp add: getNetworkRates_later parse_sample_text js_sub_def clamp_rate_def
      deltaSeconds_def)

text \<open>
  C4. The first successful call, with no stored sample, returns zero rates whatever the
  counters are, and stores the parsed counters with the current time.
\<close>

theorem first_call_returns_zero:
  "getNetworkRates (Inr content) now None =
     (\<lparr>rxPerSec = Fin 0, txPerSec = Fin 0\<rparr>,
      Some \<lparr>rxBytes = rxBytes (parseProcNetDev content),
            txBytes = txBytes (parseProcNetDev content), ts = now\<rparr>)"
  by (rule getNetworkRates_first)

theorem first_call_returns_zero_witness:
  "getNetworkRates (Inr sample_text) 42 None =
     (\<lparr>rxPerSec = Fin 0, txPerSec = Fin 0\<rparr>,
      Some \<lparr>rxBytes = Fin 3000, txBytes = Fin 500, ts = 42\<rparr>)"
  using first_call_returns_zero [where content = sample_text and now = 42]
  by (simp add: parse_sample_text)

text \<open>
  C5. With a stored sample and a clock that did not advance, a successful call returns
  zero rates and still replaces the stored sample by the current counters and time.
\<close>

theorem no_rate_without_elapsed_time:
  assumes "(of_int (now - ts prev) :: rat) / 1000 \<le> 0"
  shows "getNetworkRates (Inr content) now (Some prev) =
     (\<lparr>rxPerSec = Fin 0, txPerSec = Fin 0\<rparr>,
      Some \<lparr>rxBytes = rxBytes (parseProcNetDev content),
            txBytes = txBytes (parseProcNetDev content), ts = now\<rparr>)"
proof -
  from assms have "now \<le> ts prev" by simp
  then have "fst (getNetworkRates (Inr content) now (Some prev))
      = \<lparr>rxPerSec = Fin 0, txPerSec = Fin 0\<rparr>"
    by (rule getNetworkRates_stalled)
  then show ?thesis
    using getNetworkRates_stored [of content now "Some prev"]
    by (simp add: prod_eq_iff)
qed

theorem no_rate_without_elapsed_time_witness:
  "(of_int (1500 - ts \<lparr>rxBytes = Fin 1000, txBytes = Fin 500, ts = 2000\<rparr>) :: rat) / 1000 \<le> 0
   \<and> getNetworkRates (Inr sample_text) 1500
        (Some \<lparr>rxBytes = Fin 1000, txBytes = Fin 500, ts = 2000\<rparr>) =
     (\<lparr>rxPerSec = Fin 0, txPerSec = Fin 0\<rparr>,
      Some \<lparr>rxBytes = Fin 3000, txBytes = Fin 500, ts = 1500\<rparr>)"
  using no_rate_without_elapsed_time
    [where prev = "\<lparr>rxBytes = Fin 1000, txBytes = Fin 500, ts = 2000\<rparr>" and now = 1500
       and content = sample_text]
  by (simp add: parse_sample_text)

text \<open>
  C6. Along every sequence of calls, from every stored state, each returned rate is a
  finite number that is at least 0; and when a rate is computed, a quotient that is
  negative or not finite is replaced by 0 in its direction.
\<close>

theorem rates_always_nonneg_finite:
  "(\<forall>r \<in> set (run_sampler calls st). nonneg_finite (rxPerSec r) \<and> nonneg_finite (txPerSec r))
   \<and> (ts prev < now \<longrightarrow>
        (\<not> nonneg_finite (js_div (js_sub (rxBytes (parseProcNetDev content)) (rxBytes prev))
              (deltaSeconds now (ts prev))) \<longrightarrow>
           rxPerSec (fst (getNetworkRates (Inr content) now (Some prev))) = Fin 0)
      \<and> (\<not> nonneg_finite (js_div (js_sub (txBytes (parseProcNetDev content)) (txBytes prev))
              (deltaSeconds now (ts prev))) \<longrightarrow>
           txPerSec (fst (getNetworkRates (Inr content) now (Some prev))) = Fin 0))"
proof (intro conjI)
  show "\<forall>r \<in> set (run_sampler calls st). nonneg_finite (rxPerSec r) \<and> nonneg_finite (txPerSec r)"
  proof (induction calls arbitrary: st)
    case Nil
    show ?case by simp
  next
    case (Cons call calls)
    obtain readFile t where call: "call = (readFile, t)" by (cases call)
    show ?case
      using Cons.IH [of "snd (getNetworkRates readFile t st)"]
        rates_nonneg_finite [of readFile t st]
      by (simp add: call)
  qed
next
  show "ts prev < now \<longrightarrow>
        (\<not> nonneg_finite (js_div (js_sub (rxBytes (parseProcNetDev content)) (rxBytes prev))
              (deltaSeconds now (ts prev))) \<longrightarrow>
           rxPerSec (fst (getNetworkRates (Inr content) now (Some prev))) = Fin 0)
      \<and> (\<not> nonneg_finite (js_div (js_sub (txBytes (parseProcNetDev content)) (txBytes prev))
              (deltaSeconds now (ts prev))) \<longrightarrow>
           txPerSec (fst (getNetworkRates (Inr content) now (Some prev))) = Fin 0)"
    by (simp add: getNetworkRates_later clamp_rate_cases)
qed

text \<open>
  A first call, a failed read and a call after the receive counter went down from 3000
  to 100 while the transmit counter went up from 500 to 900 in two seconds.
\<close>

theorem rates_always_nonneg_finite_witness:
  "run_sampler [(Inr sample_text, 0), (Inl EIO, 1000), (Inr later_text, 2000)] None
     = [\<lparr>rxPerSec = Fin 0, txPerSec = Fin 0\<rparr>, \<lparr>rxPerSec = Fin 0, txPerSec = Fin 0\<rparr>,
        \<lparr>rxPerSec = Fin 0, txPerSec = Fin 200\<rparr>]
   \<and> list_all (\<lambda>r. nonneg_finite (rxPerSec r) \<and> nonneg_finite (txPerSec r))
        (run_sampler [(Inr sample_text, 0), (Inl EIO, 1000), (Inr later_text, 2000)] None)
   \<and> \<not> nonneg_finite (js_div (js_sub (rxBytes (parseProcNetDev later_text)) (Fin 3000))
          (deltaSeconds 2000 0))
   \<and> rxPerSec (fst (getNetworkRates (Inr later_text) 2000
        (Some \<lparr>rxBytes = Fin 3000, txBytes = Fin 500, ts = 0\<rparr>))) = Fin 0"
  using rates_always_nonneg_finite
    [where calls = "[(Inr sample_text, 0), (Inl EIO, 1000), (Inr later_text, 2000)]"
       and st = None and prev = "\<lparr>rxBytes = Fin 3000, txBytes = Fin 500, ts = 0\<rparr>"
       and now = 2000 and content = later_text]
  by (simp add: getNetworkRates_first getNetworkRates_failure getNetworkRates_later
      parse_sample_text parse_later_text js_sub_def clamp_rate_def deltaSeconds_def)

end
